theory Spec2Isabelle
  imports Main
begin

section \<open>JavaScript strings\<close>

text \<open>
  A JavaScript string is a sequence of UTF-16 code units. The model uses \<open>string\<close>, whose
  characters are the code units \<open>0x00\<close> to \<open>0xFF\<close>; the character classes below are the
  ECMAScript ones restricted to that range.
\<close>

text \<open>The class \<open>\s\<close> of a regular expression, which is also what \<open>trim\<close> removes.\<close>

definition isWhiteSpace :: "char \<Rightarrow> bool" where
  "isWhiteSpace c =
     (c \<in> set [CHR 0x09, CHR 0x0A, CHR 0x0B, CHR 0x0C, CHR 0x0D, CHR 0x20, CHR 0xA0])"

text \<open>The line terminators, which \<open>.\<close> does not match.\<close>

definition isLineTerminator :: "char \<Rightarrow> bool" where
  "isLineTerminator c = (c = CHR 0x0A \<or> c = CHR 0x0D)"

text \<open>The class \<open>\w\<close>, which decides the word boundary \<open>\b\<close>.\<close>

definition isWordChar :: "char \<Rightarrow> bool" where
  "isWordChar c =
     (let n = (of_char c :: nat)
      in (48 \<le> n \<and> n \<le> 57) \<or> (65 \<le> n \<and> n \<le> 90) \<or> n = 95 \<or> (97 \<le> n \<and> n \<le> 122))"

definition isDigit :: "char \<Rightarrow> bool" where
  "isDigit c = (let n = (of_char c :: nat) in 48 \<le> n \<and> n \<le> 57)"

definition trim :: "string \<Rightarrow> string" where
  "trim s = rev (dropWhile isWhiteSpace (rev (dropWhile isWhiteSpace s)))"

definition toLowerCaseChar :: "char \<Rightarrow> char" where
  "toLowerCaseChar c =
     (let n = (of_char c :: nat)
      in if (65 \<le> n \<and> n \<le> 90) \<or> (192 \<le> n \<and> n \<le> 222 \<and> n \<noteq> 215)
         then char_of (n + 32) else c)"

definition toLowerCase :: "string \<Rightarrow> string" where
  "toLowerCase s = map toLowerCaseChar s"

text \<open>
  \<open>Canonicalize\<close> of a regular expression with the \<open>i\<close> flag: two code units match
  when their canonical forms are equal.
\<close>

definition canonicalize :: "char \<Rightarrow> char" where
  "canonicalize c =
     (let n = (of_char c :: nat)
      in if (97 \<le> n \<and> n \<le> 122) \<or> (224 \<le> n \<and> n \<le> 254 \<and> n \<noteq> 247)
         then char_of (n - 32) else c)"

text \<open>The two case mappings on the bits of a character, for evaluation.\<close>

lemma canonicalize_bits [code]:
  "canonicalize (Char b0 b1 b2 b3 b4 b5 b6 b7) =
     (if b6 \<and> b5 \<and>
         (if b7 then \<not> (b4 \<and> b3 \<and> b2 \<and> b1 \<and> b0) \<and> \<not> (b4 \<and> \<not> b3 \<and> b2 \<and> b1 \<and> b0)
          else (b4 \<or> b3 \<or> b2 \<or> b1 \<or> b0) \<and> \<not> (b4 \<and> b3 \<and> (b2 \<or> (b1 \<and> b0))))
      then Char b0 b1 b2 b3 b4 False b6 b7
      else Char b0 b1 b2 b3 b4 b5 b6 b7)"
  by (cases b0; cases b1; cases b2; cases b3; cases b4; cases b5; cases b6; cases b7)
     (simp_all add: canonicalize_def Let_def char_of_eq_iff take_bit_eq_mod)

lemma toLowerCaseChar_bits [code]:
  "toLowerCaseChar (Char b0 b1 b2 b3 b4 b5 b6 b7) =
     (if b6 \<and> \<not> b5 \<and>
         (if b7 then \<not> (b4 \<and> b3 \<and> b2 \<and> b1 \<and> b0) \<and> \<not> (b4 \<and> \<not> b3 \<and> b2 \<and> b1 \<and> b0)
          else (b4 \<or> b3 \<or> b2 \<or> b1 \<or> b0) \<and> \<not> (b4 \<and> b3 \<and> (b2 \<or> (b1 \<and> b0))))
      then Char b0 b1 b2 b3 b4 True b6 b7
      else Char b0 b1 b2 b3 b4 b5 b6 b7)"
  by (cases b0; cases b1; cases b2; cases b3; cases b4; cases b5; cases b6; cases b7)
     (simp_all add: toLowerCaseChar_def Let_def char_of_eq_iff take_bit_eq_mod)

definition startsWith :: "string \<Rightarrow> string \<Rightarrow> bool" where
  "startsWith pat s = (take (length pat) s = pat)"

text \<open>The literal \<open>pat\<close> matches at the start of \<open>s\<close>, under the \<open>i\<close> flag.\<close>

fun startsWithCI :: "string \<Rightarrow> string \<Rightarrow> bool" where
  "startsWithCI [] s = True"
| "startsWithCI (p # ps) [] = False"
| "startsWithCI (p # ps) (c # cs) =
     (if canonicalize c = canonicalize p then startsWithCI ps cs else False)"

text \<open>\<open>s.includes(pat)\<close>.\<close>

fun includes_str :: "string \<Rightarrow> string \<Rightarrow> bool" where
  "includes_str [] pat = (pat = [])"
| "includes_str (c # cs) pat = (startsWith pat (c # cs) \<or> includes_str cs pat)"

text \<open>
  The position of the first case-insensitive occurrence of \<open>pat\<close>: where a lazy
  \<open>[\s\S]*?\<close> followed by the literal \<open>pat\<close> stops.
\<close>

fun indexOfCI :: "string \<Rightarrow> string \<Rightarrow> nat option" where
  "indexOfCI pat [] = (if pat = [] then Some 0 else None)"
| "indexOfCI pat (c # cs) =
     (if startsWithCI pat (c # cs) then Some 0 else map_option Suc (indexOfCI pat cs))"

text \<open>Decimal rendering of a number inside a template literal.\<close>

fun showNat :: "nat \<Rightarrow> string" where
  "showNat n =
     (if n < 10 then [char_of (48 + n)] else showNat (n div 10) @ [char_of (48 + n mod 10)])"

declare showNat.simps [simp del]

definition showInt :: "int \<Rightarrow> string" where
  "showInt i = (if i < 0 then CHR ''-'' # showNat (nat (- i)) else showNat (nat i))"

section \<open>BlockExtractor\<close>

text \<open>
  \<open>[...text.matchAll(/```html([\s\S]*?)```/gi)]\<close>, as the list of the first capture
  groups. A match attempt that fails at one position is retried at the next one; after a
  match the search goes on behind it.
\<close>

function mdMatches :: "string \<Rightarrow> string list" where
  "mdMatches [] = []"
| "mdMatches (c # cs) =
     (if startsWithCI ''```html'' (c # cs) then
        (case indexOfCI ''```'' (drop 7 (c # cs)) of
           Some j \<Rightarrow> take j (drop 7 (c # cs)) # mdMatches (drop (j + 3) (drop 7 (c # cs)))
         | None \<Rightarrow> mdMatches cs)
      else mdMatches cs)"
  by pat_completeness auto
termination
  by (relation "measure length") auto

text \<open>
  One attempt of \<open>(<!DOCTYPE html>[\s\S]*?<\/html>|<html[\s\S]*?<\/html>)\<close> at the
  start of \<open>s\<close>: the length of the match, first alternative first.
\<close>

definition rawMatchAt :: "string \<Rightarrow> nat option" where
  "rawMatchAt s =
     (case (if startsWithCI ''<!DOCTYPE html>'' s
            then map_option (\<lambda>j. 15 + j + 7) (indexOfCI ''</html>'' (drop 15 s)) else None) of
        Some n \<Rightarrow> Some n
      | None \<Rightarrow>
          (if startsWithCI ''<html'' s
           then map_option (\<lambda>j. 5 + j + 7) (indexOfCI ''</html>'' (drop 5 s)) else None))"

text \<open>\<open>[...text.matchAll(...)]\<close> for the raw documents, as the list of the \<open>m[0]\<close>.\<close>

function rawMatches :: "string \<Rightarrow> string list" where
  "rawMatches [] = []"
| "rawMatches (c # cs) =
     (case rawMatchAt (c # cs) of
        Some n \<Rightarrow> take n (c # cs) # rawMatches (drop n (c # cs))
      | None \<Rightarrow> rawMatches cs)"
  by pat_completeness auto
termination
  by (relation "measure length") (auto simp: rawMatchAt_def split: if_splits option.splits)

text \<open>\<open>/<[a-z][\s\S]*>/i.test(s)\<close>.\<close>

fun looksLikeMarkup :: "string \<Rightarrow> bool" where
  "looksLikeMarkup (a # b # cs) =
     ((a = CHR ''<'' \<and> (let n = (of_char (canonicalize b) :: nat) in 65 \<le> n \<and> n \<le> 90)
         \<and> CHR ''>'' \<in> set cs)
      \<or> looksLikeMarkup (b # cs))"
| "looksLikeMarkup _ = False"

definition detectBlocks :: "string \<Rightarrow> string list" where
  "detectBlocks text =
     (let md = mdMatches text in
      if length md > 0 then map trim md
      else
        (let raw = rawMatches text in
         if length raw > 0 then map trim raw
         else
           (let trimmed = trim text in
            if looksLikeMarkup trimmed
               \<and> (includes_str trimmed ''<div'' \<or> includes_str trimmed ''<style'')
            then [trimmed] else [])))"

text \<open>
  The three tiers in the words of the specification. A literal matches a piece of the
  text when the two agree up to case.
\<close>

definition matchesCI :: "string \<Rightarrow> string \<Rightarrow> bool" where
  "matchesCI pat s = (map canonicalize s = map canonicalize pat)"

text \<open>A fenced block: an opening fence with the info string \<open>html\<close>, and a closing fence behind it.\<close>

definition hasFencedBlock :: "string \<Rightarrow> bool" where
  "hasFencedBlock text =
     (\<exists>pre opener inner closer post.
        text = pre @ opener @ inner @ closer @ post
        \<and> matchesCI ''```html'' opener \<and> matchesCI ''```'' closer)"

text \<open>A raw document: \<open><!DOCTYPE html>\<close> or \<open><html\<close>, and \<open></html>\<close> behind it.\<close>

definition hasRawDocument :: "string \<Rightarrow> bool" where
  "hasRawDocument text =
     (\<exists>pre opener inner closer post.
        text = pre @ opener @ inner @ closer @ post
        \<and> (matchesCI ''<!DOCTYPE html>'' opener \<or> matchesCI ''<html'' opener)
        \<and> matchesCI ''</html>'' closer)"

definition isSubstring :: "string \<Rightarrow> string \<Rightarrow> bool" where
  "isSubstring pat s = (\<exists>pre post. s = pre @ pat @ post)"

definition isAsciiLetter :: "char \<Rightarrow> bool" where
  "isAsciiLetter c =
     (let n = (of_char c :: nat) in (65 \<le> n \<and> n \<le> 90) \<or> (97 \<le> n \<and> n \<le> 122))"

text \<open>A tag-opening pattern: \<open><\<close>, a letter, and \<open>>\<close> somewhere behind them.\<close>

definition hasTagOpening :: "string \<Rightarrow> bool" where
  "hasTagOpening s =
     (\<exists>pre b mid post. s = pre @ CHR ''<'' # b # mid @ CHR ''>'' # post \<and> isAsciiLetter b)"

definition isBareFragment :: "string \<Rightarrow> bool" where
  "isBareFragment s =
     (hasTagOpening s \<and> (isSubstring ''<div'' s \<or> isSubstring ''<style'' s))"

text \<open>
  What the scanning functions look for at one position, and that no position of a text
  has it.
\<close>

definition spanAt :: "string \<Rightarrow> string \<Rightarrow> string \<Rightarrow> bool" where
  "spanAt pat closePat rest =
     (startsWithCI pat rest \<and> indexOfCI closePat (drop (length pat) rest) \<noteq> None)"

definition rawAt :: "string \<Rightarrow> bool" where
  "rawAt s = (spanAt ''<!DOCTYPE html>'' ''</html>'' s \<or> spanAt ''<html'' ''</html>'' s)"

definition tagAt :: "string \<Rightarrow> bool" where
  "tagAt s = (\<exists>b mid post. s = CHR ''<'' # b # mid @ CHR ''>'' # post \<and> isAsciiLetter b)"

definition noSuffix :: "(string \<Rightarrow> bool) \<Rightarrow> string \<Rightarrow> bool" where
  "noSuffix M text = (\<forall>pre rest. text = pre @ rest \<longrightarrow> \<not> M rest)"

section \<open>DocumentParser: the parsed tree\<close>

text \<open>
  The lenient HTML parser and the serialisation of nodes belong to the host, not to this
  program. The model takes them as parameters and fixes only the tree they work on.
  Reading \<open>innerHTML\<close> or \<open>outerHTML\<close> of an element gives a string. Building the
  parser and calling it throws where the host has no \<open>DOMParser\<close>; a call that throws
  returns \<open>Inl\<close>, and the \<open>try\<close> of \<open>extractArtifacts\<close> is there for it.
\<close>

datatype error = TypeError | ReferenceError

text \<open>
  The value of the \<open>className\<close> property: a string on an HTML element, an object (an
  animated string) on an SVG element, where \<open>toLowerCase\<close> is not a function.
\<close>

datatype classValue = ClassString string | ClassObject

text \<open>
  An element with what the program reads of it. \<open>tagName\<close> is the name as the DOM gives
  it: in upper case for an HTML element, as written for an SVG or MathML element.
\<close>

datatype element =
  Element (tagName: string) (className: classValue)
    (attributes: "(string \<times> string) list") (childNodes: "node list")
and node = ElementNode element | TextNode string | CommentNode string

record document =
  head :: element
  body :: element

record dom =
  parseFromString :: "string \<Rightarrow> error + document"
  innerHTML :: "element \<Rightarrow> string"
  outerHTML :: "element \<Rightarrow> string"

text \<open>\<open>el.children\<close>: the child nodes that are elements.\<close>

fun elementsOf :: "node list \<Rightarrow> element list" where
  "elementsOf [] = []"
| "elementsOf (ElementNode e # ns) = e # elementsOf ns"
| "elementsOf (_ # ns) = elementsOf ns"

definition children :: "element \<Rightarrow> element list" where
  "children el = elementsOf (childNodes el)"

definition getAttribute :: "element \<Rightarrow> string \<Rightarrow> string option" where
  "getAttribute el name = map_of (attributes el) name"

text \<open>\<open>el.textContent\<close>: the text of all descendant text nodes, in tree order.\<close>

fun textContent :: "element \<Rightarrow> string" and nodeText :: "node \<Rightarrow> string" where
  "textContent (Element t c a ns) = concat (map nodeText ns)"
| "nodeText (ElementNode e) = textContent e"
| "nodeText (TextNode s) = s"
| "nodeText (CommentNode s) = []"

text \<open>
  \<open>el.querySelector('h1, h2, h3')\<close>: the first descendant in tree order whose tag is one
  of the three, searched here in a list of child nodes.
\<close>

fun querySelectorHeading :: "node list \<Rightarrow> element option" where
  "querySelectorHeading [] = None"
| "querySelectorHeading (ElementNode (Element t c a ns) # rest) =
     (if t \<in> set [''H1'', ''H2'', ''H3''] then Some (Element t c a ns)
      else (case querySelectorHeading ns of
              Some h \<Rightarrow> Some h
            | None \<Rightarrow> querySelectorHeading rest))"
| "querySelectorHeading (_ # rest) = querySelectorHeading rest"

text \<open>
  \<open>querySelectorAll('style')\<close> below a list of nodes, in tree order: the HTML \<open>style\<close>
  elements and the SVG ones.
\<close>

fun querySelectorAllStyle :: "node list \<Rightarrow> element list" where
  "querySelectorAllStyle [] = []"
| "querySelectorAllStyle (ElementNode (Element t c a ns) # rest) =
     (if t = ''STYLE'' \<or> t = ''style'' then [Element t c a ns] else [])
       @ querySelectorAllStyle ns @ querySelectorAllStyle rest"
| "querySelectorAllStyle (_ # rest) = querySelectorAllStyle rest"

section \<open>ArtifactSplitter\<close>

datatype artifactType = Html | Unknown

record artifact =
  id_a :: string
  code :: string
  title :: string
  type_a :: artifactType

definition getMeaningfulChildren :: "element \<Rightarrow> element list" where
  "getMeaningfulChildren el =
     filter (\<lambda>child. tagName child \<notin>
               set [''SCRIPT'', ''STYLE'', ''LINK'', ''META'', ''BR'', ''NOSCRIPT'', ''TEMPLATE''])
       (children el)"

text \<open>
  \<open>(el.className || '').toLowerCase()\<close>: an empty class name is replaced by the empty
  string, and a class object, which is truthy, has no \<open>toLowerCase\<close> and throws.
\<close>

definition classNameLower :: "element \<Rightarrow> error + string" where
  "classNameLower el =
     (case className el of
        ClassString s \<Rightarrow> Inr (toLowerCase s)
      | ClassObject \<Rightarrow> Inl TypeError)"

text \<open>\<open>/wrapper|container|list|grid|group|collection/.test(containerClass)\<close>.\<close>

definition isWrapperName :: "string \<Rightarrow> bool" where
  "isWrapperName containerClass =
     list_ex (includes_str containerClass)
       [''wrapper'', ''container'', ''list'', ''grid'', ''group'', ''collection'']"

text \<open>\<open>s.match(/card|slide|page|section|item/)\<close> as a truth value.\<close>

definition matchesCardClass :: "string \<Rightarrow> bool" where
  "matchesCardClass s =
     list_ex (includes_str s) [''card'', ''slide'', ''page'', ''section'', ''item'']"

text \<open>\<open>innerChildren.some(...)\<close>: stops at the first child that matches.\<close>

fun childrenHaveCardClass :: "element list \<Rightarrow> error + bool" where
  "childrenHaveCardClass [] = Inr False"
| "childrenHaveCardClass (child # rest) =
     (case classNameLower child of
        Inl e \<Rightarrow> Inl e
      | Inr s \<Rightarrow> if matchesCardClass s then Inr True else childrenHaveCardClass rest)"

definition childrenAreSections :: "element list \<Rightarrow> bool" where
  "childrenAreSections innerChildren =
     list_all (\<lambda>child. tagName child \<in> set [''SECTION'', ''ARTICLE'', ''ASIDE''])
       innerChildren"

text \<open>
  \<open>/\bcard\b/.test(s)\<close>, searched from the left with the character before the current
  position: the word \<open>card\<close> with no word character on either side.
\<close>

fun wordCardFrom :: "char option \<Rightarrow> string \<Rightarrow> bool" where
  "wordCardFrom prev [] = False"
| "wordCardFrom prev (c # cs) =
     ((startsWith ''card'' (c # cs)
         \<and> (case prev of None \<Rightarrow> True | Some p \<Rightarrow> \<not> isWordChar p)
         \<and> (case drop 4 (c # cs) of [] \<Rightarrow> True | d # _ \<Rightarrow> \<not> isWordChar d))
      \<or> wordCardFrom (Some c) cs)"

definition isCardName :: "string \<Rightarrow> bool" where
  "isCardName containerClass =
     (wordCardFrom None containerClass \<or> containerClass = ''card'')"

text \<open>The decision of the wrapper-peel step, \<open>shouldDescend\<close>.\<close>

definition shouldDescend :: "element \<Rightarrow> element list \<Rightarrow> error + bool" where
  "shouldDescend container innerChildren =
     (case classNameLower container of
        Inl e \<Rightarrow> Inl e
      | Inr containerClass \<Rightarrow>
          (case childrenHaveCardClass innerChildren of
             Inl e \<Rightarrow> Inl e
           | Inr haveCardClass \<Rightarrow>
               Inr (if isWrapperName containerClass then True
                    else if haveCardClass \<or> childrenAreSections innerChildren
                    then (if \<not> isCardName containerClass then True else False)
                    else False)))"

text \<open>The targets of a parsed block, after the wrapper-peel step.\<close>

definition peelTargets :: "document \<Rightarrow> error + element list" where
  "peelTargets doc =
     (let targets = getMeaningfulChildren (body doc) in
      case targets of
        [container] \<Rightarrow>
          (let innerChildren = getMeaningfulChildren container in
           if length innerChildren > 1 then
             (case shouldDescend container innerChildren of
                Inl e \<Rightarrow> Inl e
              | Inr descend \<Rightarrow> Inr (if descend then innerChildren else targets))
           else Inr targets)
      | _ \<Rightarrow> Inr targets)"

text \<open>\<open>a || b\<close> on a string that may be absent: an absent or empty \<open>a\<close> gives \<open>b\<close>.\<close>

fun orElse :: "string option \<Rightarrow> string \<Rightarrow> string" where
  "orElse None b = b"
| "orElse (Some a) b = (if a = [] then b else a)"

text \<open>\<open>child.querySelector('h1, h2, h3')?.textContent?.trim()\<close>.\<close>

definition headingText :: "element \<Rightarrow> string option" where
  "headingText child =
     map_option (\<lambda>h. trim (textContent h)) (querySelectorHeading (childNodes child))"

definition titleText :: "element \<Rightarrow> nat \<Rightarrow> string" where
  "titleText child childIndex =
     orElse (headingText child)
       (orElse (getAttribute child ''title'')
          (orElse (getAttribute child ''aria-label'')
             (''Card '' @ showNat (childIndex + 1))))"


definition truncateTitle :: "string \<Rightarrow> string" where
  "truncateTitle t = (if length t > 30 then take 30 t @ ''...'' else t)"

definition splitCode :: "string \<Rightarrow> string \<Rightarrow> string" where
  \<open>splitCode headContent outer =
     ''<!DOCTYPE html>'' @ [CHR 0x0A] @
     ''<html>'' @ [CHR 0x0A] @
     ''<head>'' @ [CHR 0x0A] @
     ''  <meta charset="UTF-8">'' @ [CHR 0x0A] @
     ''  '' @ headContent @ [CHR 0x0A] @
     ''</head>'' @ [CHR 0x0A] @
     ''<body style="margin:0; padding:0; background: transparent;">'' @ [CHR 0x0A] @
     ''  '' @ outer @ [CHR 0x0A] @
     ''</body>'' @ [CHR 0x0A] @
     ''</html>''\<close>

definition splitArtifact :: "int \<Rightarrow> nat \<Rightarrow> nat \<Rightarrow> string \<Rightarrow> string \<Rightarrow> artifact" where
  "splitArtifact now blockIndex childIndex code_text title_text =
     \<lparr> id_a = ''artifact-split-'' @ showInt now @ ''-'' @ showNat blockIndex
                @ ''-'' @ showNat childIndex,
       code = code_text,
       title = truncateTitle title_text,
       type_a = Html \<rparr>"

text \<open>
  \<open>targets.forEach((child, childIndex) => ...)\<close>: each target pushes one artifact. Nothing
  in the callback throws: the target is an element, so \<open>querySelector\<close>, \<open>getAttribute\<close> and
  \<open>outerHTML\<close> are there, and the title is a string.
\<close>

fun splitTargets ::
  "dom \<Rightarrow> int \<Rightarrow> nat \<Rightarrow> string \<Rightarrow> element list \<Rightarrow> nat \<Rightarrow> artifact list
     \<Rightarrow> artifact list" where
  "splitTargets env now blockIndex headContent [] childIndex artifacts = artifacts"
| "splitTargets env now blockIndex headContent (child # rest) childIndex artifacts =
     splitTargets env now blockIndex headContent rest (childIndex + 1)
       (artifacts @ [splitArtifact now blockIndex childIndex
                       (splitCode headContent (outerHTML env child))
                       (titleText child childIndex)])"

text \<open>
  One attempt of \<open>/<title>(.*?)<\/title>/i\<close> behind an opening \<open><title>\<close>: the
  capture group, which holds no line terminator.
\<close>

fun titleCapture :: "string \<Rightarrow> string option" where
  "titleCapture [] = None"
| "titleCapture (c # cs) =
     (if startsWithCI ''</title>'' (c # cs) then Some []
      else if isLineTerminator c then None
      else map_option ((#) c) (titleCapture cs))"

text \<open>\<open>block.match(/<title>(.*?)<\/title>/i)\<close>: the first capture group of the leftmost match.\<close>

fun titleMatch :: "string \<Rightarrow> string option" where
  "titleMatch [] = None"
| "titleMatch (c # cs) =
     (case (if startsWithCI ''<title>'' (c # cs) then titleCapture (drop 7 (c # cs)) else None) of
        Some t \<Rightarrow> Some t
      | None \<Rightarrow> titleMatch cs)"

definition blockArtifact :: "int \<Rightarrow> nat \<Rightarrow> string \<Rightarrow> artifact" where
  "blockArtifact now blockIndex block =
     \<lparr> id_a = ''artifact-block-'' @ showInt now @ ''-'' @ showNat blockIndex,
       code = block,
       title = (case titleMatch block of
                  Some t \<Rightarrow> t
                | None \<Rightarrow> ''Artifact '' @ showNat (blockIndex + 1)),
       type_a = Html \<rparr>"

definition errArtifact :: "int \<Rightarrow> nat \<Rightarrow> string \<Rightarrow> artifact" where
  "errArtifact now blockIndex block =
     \<lparr> id_a = ''artifact-err-'' @ showInt now @ ''-'' @ showNat blockIndex,
       code = block,
       title = ''Artifact '' @ showNat (blockIndex + 1),
       type_a = Html \<rparr>"

text \<open>The body of the \<open>try\<close>: the artifact list it leaves, and the error if it threw.\<close>

definition tryBlock ::
  "dom \<Rightarrow> int \<Rightarrow> artifact list \<Rightarrow> string \<Rightarrow> nat \<Rightarrow> artifact list \<times> error option" where
  "tryBlock env now artifacts block blockIndex =
     (case parseFromString env block of
        Inl e \<Rightarrow> (artifacts, Some e)
      | Inr doc \<Rightarrow>
          (let headContent = innerHTML env (head doc) in
           case peelTargets doc of
             Inl e \<Rightarrow> (artifacts, Some e)
           | Inr targets \<Rightarrow>
               if length targets > 1
               then (splitTargets env now blockIndex headContent targets 0 artifacts, None)
               else (artifacts @ [blockArtifact now blockIndex block], None)))"

text \<open>The callback of \<open>blocks.forEach\<close>, with its \<open>catch\<close>.\<close>

definition processBlock :: "dom \<Rightarrow> int \<Rightarrow> artifact list \<Rightarrow> string \<Rightarrow> nat \<Rightarrow> artifact list" where
  "processBlock env now artifacts block blockIndex =
     (case tryBlock env now artifacts block blockIndex of
        (artifacts', None) \<Rightarrow> artifacts'
      | (artifacts', Some e) \<Rightarrow> artifacts' @ [errArtifact now blockIndex block])"

fun processBlocks ::
  "dom \<Rightarrow> int \<Rightarrow> artifact list \<Rightarrow> string list \<Rightarrow> nat \<Rightarrow> artifact list" where
  "processBlocks env now artifacts [] blockIndex = artifacts"
| "processBlocks env now artifacts (block # rest) blockIndex =
     processBlocks env now (processBlock env now artifacts block blockIndex) rest (blockIndex + 1)"

text \<open>\<open>extractArtifacts(text)\<close>; \<open>now\<close> is the value of \<open>Date.now()\<close>.\<close>

definition extractArtifacts :: "dom \<Rightarrow> int \<Rightarrow> string \<Rightarrow> artifact list" where
  "extractArtifacts env now text = processBlocks env now [] (detectBlocks text) 0"

text \<open>The three forms of an id, and the ids a block with a given index can produce.\<close>

definition idSplit :: "int \<Rightarrow> nat \<Rightarrow> nat \<Rightarrow> string" where
  "idSplit now b c = ''artifact-split-'' @ showInt now @ ''-'' @ showNat b @ ''-'' @ showNat c"

definition idBlock :: "int \<Rightarrow> nat \<Rightarrow> string" where
  "idBlock now b = ''artifact-block-'' @ showInt now @ ''-'' @ showNat b"

definition idErr :: "int \<Rightarrow> nat \<Rightarrow> string" where
  "idErr now b = ''artifact-err-'' @ showInt now @ ''-'' @ showNat b"

definition idsOf :: "int \<Rightarrow> nat \<Rightarrow> string set" where
  "idsOf now b = insert (idBlock now b) (insert (idErr now b) (range (idSplit now b)))"

text \<open>Whether a block reaches the split branch: it parses and has more than one target.\<close>

definition triggersSplit :: "dom \<Rightarrow> string \<Rightarrow> bool" where
  "triggersSplit env block =
     (case parseFromString env block of
        Inl e \<Rightarrow> False
      | Inr doc \<Rightarrow>
          (case peelTargets doc of
             Inl e \<Rightarrow> False
           | Inr targets \<Rightarrow> length targets > 1))"

section \<open>PreviewScoper\<close>

record parsedHtml =
  styles :: string
  bodyContent :: string

text \<open>\<open>\s*body\<close> at the start of \<open>s\<close>: what is left behind the match.\<close>

definition bodyAfterSpaces :: "string \<Rightarrow> string option" where
  "bodyAfterSpaces s =
     (let r = dropWhile isWhiteSpace s in
      if startsWith ''body'' r then Some (drop 4 r) else None)"

text \<open>
  One attempt of \<open>(^|}|,)\s*body\<close> at a position, \<open>atStart\<close> saying whether it is
  position 0: the capture group and what is left behind the match. The alternatives are
  tried in their order.
\<close>

definition scopeMatch :: "bool \<Rightarrow> string \<Rightarrow> (string \<times> string) option" where
  "scopeMatch atStart s =
     (case (if atStart then bodyAfterSpaces s else None) of
        Some r \<Rightarrow> Some ([], r)
      | None \<Rightarrow>
          (case s of
             [] \<Rightarrow> None
           | c # cs \<Rightarrow>
               if c = CHR ''}'' \<or> c = CHR '','' then map_option (Pair [c]) (bodyAfterSpaces cs)
               else None))"

text \<open>
  \<open>GetSubstitution\<close> for a pattern with one capture group and no named groups: the
  expansion of the replacement template at one match.
\<close>

fun getSubstitution :: "string \<Rightarrow> string \<Rightarrow> string \<Rightarrow> string \<Rightarrow> string \<Rightarrow> string" where
  "getSubstitution matched preceding following cap [] = []"
| "getSubstitution matched preceding following cap [c] = [c]"
| "getSubstitution matched preceding following cap (c # d # t) =
     (if c \<noteq> CHR ''$'' then c # getSubstitution matched preceding following cap (d # t)
      else if d = CHR ''$'' then CHR ''$'' # getSubstitution matched preceding following cap t
      else if d = CHR 0x60 then preceding @ getSubstitution matched preceding following cap t
      else if d = CHR ''&'' then matched @ getSubstitution matched preceding following cap t
      else if d = CHR 0x27 then following @ getSubstitution matched preceding following cap t
      else if isDigit d then
        (case t of
           e # t' \<Rightarrow>
             if isDigit e then
               (if d = CHR ''0'' \<and> e = CHR ''1''
                then cap @ getSubstitution matched preceding following cap t'
                else if d = CHR ''0'' \<and> e = CHR ''0''
                then CHR ''$'' # d # e # getSubstitution matched preceding following cap t'
                else if d = CHR ''1''
                then cap @ getSubstitution matched preceding following cap t
                else CHR ''$'' # d # getSubstitution matched preceding following cap t)
             else if d = CHR ''1'' then cap @ getSubstitution matched preceding following cap t
             else CHR ''$'' # d # getSubstitution matched preceding following cap t
         | [] \<Rightarrow> if d = CHR ''1'' then cap else [CHR ''$'', d])
      else CHR ''$'' # getSubstitution matched preceding following cap (d # t))"

text \<open>
  \<open>str.replace(/(^|}|,)\s*body/g, template)\<close> from a position on: \<open>preceding\<close> is the
  text in front of the position and \<open>s\<close> the text from it.
\<close>

function replaceBody :: "string \<Rightarrow> string \<Rightarrow> string \<Rightarrow> string" where
  "replaceBody template preceding s =
     (case scopeMatch (preceding = []) s of
        Some (cap, r) \<Rightarrow>
          getSubstitution (take (length s - length r) s) preceding r cap template
            @ replaceBody template (preceding @ take (length s - length r) s) r
      | None \<Rightarrow>
          (case s of
             [] \<Rightarrow> []
           | c # cs \<Rightarrow> c # replaceBody template (preceding @ [c]) cs))"
  by pat_completeness auto

lemma bodyAfterSpaces_shorter:
  "bodyAfterSpaces s = Some r \<Longrightarrow> length r < length s"
proof -
  assume a: "bodyAfterSpaces s = Some r"
  let ?d = "dropWhile isWhiteSpace s"
  from a have r: "r = drop 4 ?d" and sw: "startsWith ''body'' ?d"
    by (auto simp: bodyAfterSpaces_def Let_def split: if_splits)
  have "?d \<noteq> []"
  proof
    assume "?d = []"
    with sw show False by (simp add: startsWith_def)
  qed
  then have "length (drop 4 ?d) < length ?d" by simp
  moreover have "length ?d \<le> length s" by (rule length_dropWhile_le)
  ultimately show ?thesis using r by simp
qed

lemma scopeMatch_shorter:
  "scopeMatch b s = Some (cap, r) \<Longrightarrow> length r < length s"
  by (auto simp: scopeMatch_def split: if_splits option.splits list.splits
           dest!: bodyAfterSpaces_shorter)

termination replaceBody
  by (relation "measure (\<lambda>(t, b, s). length s)") (auto dest: scopeMatch_shorter)

declare replaceBody.simps [simp del]

text \<open>\<open>styles.replace(/(^|}|,)\s*body/g, `$1 #${wrapperId}`)\<close>.\<close>

definition scopeStyles :: "string \<Rightarrow> string \<Rightarrow> string" where
  "scopeStyles styles_text wrapperId = replaceBody (''$1 #'' @ wrapperId) [] styles_text"

text \<open>
  An anchored occurrence of \<open>body\<close> in \<open>s\<close>: the token stands behind a closing brace or
  a comma, or behind the start of the text when \<open>s\<close> starts there, with nothing but
  white space in between. The second form searches one from the left.
\<close>

definition anchoredBody :: "bool \<Rightarrow> string \<Rightarrow> bool" where
  "anchoredBody atStart s =
     ((atStart \<and> (\<exists>ws r. list_all isWhiteSpace ws \<and> s = ws @ ''body'' @ r))
      \<or> (\<exists>u a ws r. (a = CHR ''}'' \<or> a = CHR '','') \<and> list_all isWhiteSpace ws
             \<and> s = u @ a # ws @ ''body'' @ r))"

fun hasScopeMatch :: "bool \<Rightarrow> string \<Rightarrow> bool" where
  "hasScopeMatch atStart [] = False"
| "hasScopeMatch atStart (c # cs) =
     (if scopeMatch atStart (c # cs) \<noteq> None then True else hasScopeMatch False cs)"

text \<open>\<open>xs.join(sep)\<close>.\<close>

fun join :: "string \<Rightarrow> string list \<Rightarrow> string" where
  "join sep [] = []"
| "join sep [x] = x"
| "join sep (x # y # ys) = x @ sep @ join sep (y # ys)"

definition parseHtmlForPreview :: "dom \<Rightarrow> string \<Rightarrow> string \<Rightarrow> error + parsedHtml" where
  "parseHtmlForPreview env html wrapperId =
     (case parseFromString env html of
        Inl e \<Rightarrow> Inl e
      | Inr doc \<Rightarrow>
          (let styleTexts =
                 map (innerHTML env)
                   (querySelectorAllStyle [ElementNode (head doc), ElementNode (body doc)]);
               content = innerHTML env (body doc)
           in Inr \<lparr> styles = scopeStyles (join [CHR 0x0A] styleTexts) wrapperId,
                     bodyContent = content \<rparr>))"

text \<open>What a caller sees of an artifact apart from its id.\<close>

definition codeTitle :: "artifact \<Rightarrow> string \<times> string" where
  "codeTitle a = (code a, title a)"

section \<open>A host for the examples\<close>

text \<open>
  The examples run on a small host: it serialises a tree the way the HTML fragment
  serialisation does, and parses the documents of the examples to the trees a browser
  builds for them. With an empty list of documents it is a host whose parser throws.
\<close>

definition escapeText :: "string \<Rightarrow> string" where
  "escapeText s =
     concat (map (\<lambda>c. if c = CHR ''&'' then ''&amp;''
                       else if c = CHR ''<'' then ''&lt;''
                       else if c = CHR ''>'' then ''&gt;''
                       else if c = CHR 0xA0 then ''&nbsp;'' else [c]) s)"

definition escapeAttribute :: "string \<Rightarrow> string" where
  "escapeAttribute s =
     concat (map (\<lambda>c. if c = CHR ''&'' then ''&amp;''
                       else if c = CHR 0x22 then ''&quot;''
                       else if c = CHR 0xA0 then ''&nbsp;'' else [c]) s)"

definition serializeAttribute :: "string \<times> string \<Rightarrow> string" where
  "serializeAttribute a = '' '' @ fst a @ ''='' @ [CHR 0x22] @ escapeAttribute (snd a) @ [CHR 0x22]"

fun serializeElement :: "element \<Rightarrow> string" and serializeNode :: "bool \<Rightarrow> node \<Rightarrow> string" where
  "serializeElement (Element t c a ns) =
     ''<'' @ toLowerCase t @ concat (map serializeAttribute a) @ ''>'' @
     (if t \<in> set [''AREA'', ''BASE'', ''BR'', ''COL'', ''EMBED'', ''HR'', ''IMG'', ''INPUT'',
                    ''LINK'', ''META'', ''SOURCE'', ''TRACK'', ''WBR'']
      then []
      else concat (map (serializeNode (t \<in> set [''STYLE'', ''SCRIPT''])) ns)
             @ ''</'' @ toLowerCase t @ ''>'')"
| "serializeNode raw (ElementNode e) = serializeElement e"
| "serializeNode raw (TextNode s) = (if raw then s else escapeText s)"
| "serializeNode raw (CommentNode s) = ''<!--'' @ s @ ''-->''"

definition serializeChildren :: "element \<Rightarrow> string" where
  "serializeChildren el =
     concat (map (serializeNode (tagName el \<in> set [''STYLE'', ''SCRIPT''])) (childNodes el))"

text \<open>An HTML element with the given class attribute and no other attribute.\<close>

definition htmlElement :: "string \<Rightarrow> string \<Rightarrow> node list \<Rightarrow> element" where
  "htmlElement t cls ns =
     Element t (ClassString cls) (if cls = [] then [] else [(''class'', cls)]) ns"

definition documentOf :: "node list \<Rightarrow> node list \<Rightarrow> document" where
  "documentOf headNodes bodyNodes =
     \<lparr> head = htmlElement ''HEAD'' [] headNodes, body = htmlElement ''BODY'' [] bodyNodes \<rparr>"

definition exampleHost :: "(string \<times> document) list \<Rightarrow> dom" where
  "exampleHost documents =
     \<lparr> parseFromString =
         (\<lambda>s. case map_of documents s of Some d \<Rightarrow> Inr d | None \<Rightarrow> Inl ReferenceError),
       innerHTML = serializeChildren,
       outerHTML = serializeElement \<rparr>"

definition plainText :: string where
  "plainText = ''Hello, world: 2 < 3 and no markup.''"

definition upperDiv :: string where
  \<open>upperDiv = ''<DIV class="x">Hello</DIV>''\<close>

definition paragraphBlock :: string where
  \<open>paragraphBlock = ''<p>Hello</p>''\<close>

definition paragraphDocument :: document where
  "paragraphDocument = documentOf [] [ElementNode (htmlElement ''P'' [] [TextNode ''Hello''])]"

definition cardBlock :: string where
  \<open>cardBlock =
     ''<div class="card"><div class="card-header">X</div><div class="card-body">Y</div></div>''\<close>

definition cardContainer :: element where
  "cardContainer =
     htmlElement ''DIV'' ''card''
       [ElementNode (htmlElement ''DIV'' ''card-header'' [TextNode ''X'']),
        ElementNode (htmlElement ''DIV'' ''card-body'' [TextNode ''Y''])]"

definition cardDocument :: document where
  "cardDocument = documentOf [] [ElementNode cardContainer]"

definition wrapperBlock :: string where
  \<open>wrapperBlock =
     ''<div class="wrapper"><section class="card">A</section><section class="card">B</section></div>''\<close>

definition wrapperDocument :: document where
  "wrapperDocument =
     documentOf []
       [ElementNode (htmlElement ''DIV'' ''wrapper''
          [ElementNode (htmlElement ''SECTION'' ''card'' [TextNode ''A'']),
           ElementNode (htmlElement ''SECTION'' ''card'' [TextNode ''B''])])]"

text \<open>
  A raw document with a style in its head and five sections, which take their titles from
  a heading, a \<open>title\<close> attribute, an \<open>aria-label\<close> attribute, the index, and a long heading.
\<close>

definition slidesBlock :: string where
  \<open>slidesBlock =
     ''<html><head><style>h2{color:red}</style></head><body>''
     @ ''<section><h2> Intro </h2><p>a</p></section>''
     @ ''<section title="Second"><p>b</p></section>''
     @ ''<section aria-label="Third"></section>''
     @ ''<section></section>''
     @ ''<section><div><h3>A heading that is clearly longer than thirty characters</h3></div></section>''
     @ ''</body></html>''\<close>

definition slidesDocument :: document where
  "slidesDocument =
     documentOf [ElementNode (htmlElement ''STYLE'' [] [TextNode ''h2{color:red}''])]
       [ElementNode (htmlElement ''SECTION'' []
          [ElementNode (htmlElement ''H2'' [] [TextNode '' Intro '']),
           ElementNode (htmlElement ''P'' [] [TextNode ''a''])]),
        ElementNode (Element ''SECTION'' (ClassString []) [(''title'', ''Second'')]
          [ElementNode (htmlElement ''P'' [] [TextNode ''b''])]),
        ElementNode (Element ''SECTION'' (ClassString []) [(''aria-label'', ''Third'')] []),
        ElementNode (htmlElement ''SECTION'' [] []),
        ElementNode (htmlElement ''SECTION'' []
          [ElementNode (htmlElement ''DIV'' []
             [ElementNode (htmlElement ''H3'' []
                [TextNode ''A heading that is clearly longer than thirty characters''])])])]"

definition cardWrapperBlock :: string where
  \<open>cardWrapperBlock =
     ''<div class="card-wrapper"><div class="card">One</div><div class="card">Two</div></div>''\<close>

definition cardWrapperContainer :: element where
  "cardWrapperContainer =
     htmlElement ''DIV'' ''card-wrapper''
       [ElementNode (htmlElement ''DIV'' ''card'' [TextNode ''One'']),
        ElementNode (htmlElement ''DIV'' ''card'' [TextNode ''Two''])]"

definition cardWrapperDocument :: document where
  "cardWrapperDocument = documentOf [] [ElementNode cardWrapperContainer]"

text \<open>Two cards side by side.\<close>

definition twoCardsBlock :: string where
  \<open>twoCardsBlock =
     ''<section class="card">A</section><section class="card">A much longer second card</section>''\<close>

definition twoCardsDocument :: document where
  "twoCardsDocument =
     documentOf []
       [ElementNode (htmlElement ''SECTION'' ''card'' [TextNode ''A'']),
        ElementNode (htmlElement ''SECTION'' ''card'' [TextNode ''A much longer second card''])]"

text \<open>An SVG container: its elements keep their tag names and have class objects.\<close>

definition svgBlock :: string where
  \<open>svgBlock = ''<svg class="icons"><g></g><g></g></svg>''\<close>

definition svgDocument :: document where
  "svgDocument =
     documentOf []
       [ElementNode (Element ''svg'' ClassObject [(''class'', ''icons'')]
          [ElementNode (Element ''g'' ClassObject [] []),
           ElementNode (Element ''g'' ClassObject [] [])])]"

text \<open>
  A grid of two SVG cards: the container is an HTML element, its children are SVG
  elements with the class attribute \<open>card\<close> and a class object.
\<close>

definition svgCardsBlock :: string where
  \<open>svgCardsBlock = ''<div class="grid"><svg class="card"></svg><svg class="card"></svg></div>''\<close>

definition svgCardsContainer :: element where
  "svgCardsContainer =
     htmlElement ''DIV'' ''grid''
       [ElementNode (Element ''svg'' ClassObject [(''class'', ''card'')] []),
        ElementNode (Element ''svg'' ClassObject [(''class'', ''card'')] [])]"

definition svgCardsDocument :: document where
  "svgCardsDocument = documentOf [] [ElementNode svgCardsContainer]"

text \<open>A container without class around two sections without class.\<close>

definition sectionsBlock :: string where
  \<open>sectionsBlock = ''<div><section>A</section><section>B</section></div>''\<close>

definition sectionsContainer :: element where
  "sectionsContainer =
     htmlElement ''DIV'' []
       [ElementNode (htmlElement ''SECTION'' [] [TextNode ''A'']),
        ElementNode (htmlElement ''SECTION'' [] [TextNode ''B''])]"

definition sectionsDocument :: document where
  "sectionsDocument = documentOf [] [ElementNode sectionsContainer]"

text \<open>
  Two sections: one with a \<open>title\<close> attribute and a heading that holds a space only, one
  with two headings.
\<close>

definition headingsBlock :: string where
  \<open>headingsBlock =
     ''<section title="Named"><h2> </h2></section>''
     @ ''<section><h1>First</h1><h2>Second</h2></section>''\<close>

definition headingsDocument :: document where
  "headingsDocument =
     documentOf []
       [ElementNode (Element ''SECTION'' (ClassString []) [(''title'', ''Named'')]
          [ElementNode (htmlElement ''H2'' [] [TextNode '' ''])]),
        ElementNode (htmlElement ''SECTION'' []
          [ElementNode (htmlElement ''H1'' [] [TextNode ''First'']),
           ElementNode (htmlElement ''H2'' [] [TextNode ''Second''])])]"

text \<open>Two raw documents with one paragraph: a long title, and an empty one.\<close>

definition longTitleBlock :: string where
  \<open>longTitleBlock =
     ''<html><head><title>Quarterly revenue dashboard for the sales team</title></head>''
     @ ''<body><p>x</p></body></html>''\<close>

definition longTitleDocument :: document where
  "longTitleDocument =
     documentOf
       [ElementNode (htmlElement ''TITLE'' []
          [TextNode ''Quarterly revenue dashboard for the sales team''])]
       [ElementNode (htmlElement ''P'' [] [TextNode ''x''])]"

definition emptyTitleBlock :: string where
  \<open>emptyTitleBlock = ''<html><head><title></title></head><body><p>x</p></body></html>''\<close>

definition emptyTitleDocument :: document where
  "emptyTitleDocument =
     documentOf [ElementNode (htmlElement ''TITLE'' [] [])]
       [ElementNode (htmlElement ''P'' [] [TextNode ''x''])]"

text \<open>A document whose style sheet styles the body.\<close>

definition previewBlock :: string where
  \<open>previewBlock =
     ''<html><head><style>body{color:red} .x{}</style></head>''
     @ ''<body><p class="x">hi</p></body></html>''\<close>

definition previewDocument :: document where
  "previewDocument =
     documentOf [ElementNode (htmlElement ''STYLE'' [] [TextNode ''body{color:red} .x{}''])]
       [ElementNode (htmlElement ''P'' ''x'' [TextNode ''hi''])]"

definition exampleDocuments :: "(string \<times> document) list" where
  "exampleDocuments =
     [(paragraphBlock, paragraphDocument), (cardBlock, cardDocument),
      (wrapperBlock, wrapperDocument), (slidesBlock, slidesDocument),
      (cardWrapperBlock, cardWrapperDocument), (twoCardsBlock, twoCardsDocument),
      (svgBlock, svgDocument), (svgCardsBlock, svgCardsDocument),
      (sectionsBlock, sectionsDocument), (headingsBlock, headingsDocument),
      (longTitleBlock, longTitleDocument),
      (emptyTitleBlock, emptyTitleDocument), (previewBlock, previewDocument)]"


text \<open>A markdown text with two fences, the second one with an upper-case info string.\<close>

definition markdownText :: string where
  "markdownText =
     ''Two designs:'' @ [CHR 0x0A] @ ''```html'' @ [CHR 0x0A] @ paragraphBlock @ [CHR 0x0A]
     @ ''```'' @ [CHR 0x0A] @ ''and'' @ [CHR 0x0A] @ ''```HTML'' @ [CHR 0x0A] @ cardBlock
     @ [CHR 0x0A] @ ''```'' @ [CHR 0x0A]"

section \<open>The artifacts of one block\<close>


text \<open>The split artifacts of a list of targets, the first of them with index \<open>ci\<close>.\<close>

lemma splitTargets_map:
  "splitTargets env now bi h ts ci arts =
     arts @ map (\<lambda>i. splitArtifact now bi (ci + i) (splitCode h (outerHTML env (ts ! i)))
                        (titleText (ts ! i) (ci + i))) [0..<length ts]"
proof (induction ts arbitrary: ci arts)
  case Nil
  show ?case by simp
next
  case (Cons child rest)
  have "map (\<lambda>i. splitArtifact now bi (ci + i) (splitCode h (outerHTML env ((child # rest) ! i)))
                    (titleText ((child # rest) ! i) (ci + i))) [0..<length (child # rest)]
          = splitArtifact now bi ci (splitCode h (outerHTML env child)) (titleText child ci)
            # map (\<lambda>i. splitArtifact now bi (Suc ci + i) (splitCode h (outerHTML env (rest ! i)))
                          (titleText (rest ! i) (Suc ci + i))) [0..<length rest]"
    by (simp add: upt_conv_Cons map_Suc_upt [symmetric] del: upt_Suc)
  then show ?case
    using Cons.IH [of "Suc ci"] by simp
qed

lemma splitTargets_acc:
  "splitTargets env now bi h ts ci arts = arts @ splitTargets env now bi h ts ci []"
  using splitTargets_map [of env now bi h ts ci arts] splitTargets_map [of env now bi h ts ci "[]"]
  by simp

lemma tryBlock_acc:
  "tryBlock env now arts block bi =
     (arts @ fst (tryBlock env now [] block bi), snd (tryBlock env now [] block bi))"
  unfolding tryBlock_def Let_def
  by (auto split: sum.splits simp: splitTargets_acc [of _ _ _ _ _ _ arts])



lemma processBlock_acc:
  "processBlock env now arts block bi = arts @ processBlock env now [] block bi"
  unfolding processBlock_def
  by (subst tryBlock_acc) (auto split: prod.splits option.splits)

lemma processBlocks_acc:
  "processBlocks env now arts blocks bi = arts @ processBlocks env now [] blocks bi"
proof (induction blocks arbitrary: arts bi)
  case Nil
  show ?case by simp
next
  case (Cons b bs)
  show ?case
    using Cons.IH [of "processBlock env now arts b bi" "bi + 1"]
          Cons.IH [of "processBlock env now [] b bi" "bi + 1"]
          processBlock_acc [of env now arts b bi]
    by simp
qed

lemma processBlocks_Cons:
  "processBlocks env now [] (b # bs) bi =
     processBlock env now [] b bi @ processBlocks env now [] bs (Suc bi)"
  using processBlocks_acc [of env now "processBlock env now [] b bi" bs "Suc bi"] by simp



lemma startsWith_iff: "startsWith p s \<longleftrightarrow> (\<exists>r. s = p @ r)"
proof
  assume "startsWith p s"
  then have "s = p @ drop (length p) s"
    unfolding startsWith_def by (metis append_take_drop_id)
  then show "\<exists>r. s = p @ r" ..
next
  assume "\<exists>r. s = p @ r"
  then show "startsWith p s" by (auto simp: startsWith_def)
qed

section \<open>Detection of blocks\<close>

text \<open>
  The scanning functions find a match exactly when the text has one: each tier of
  \<open>detectBlocks\<close> is the tier of the specification.
\<close>

lemma startsWithCI_iff:
  "startsWithCI pat s \<longleftrightarrow> (\<exists>opener rest. s = opener @ rest \<and> matchesCI pat opener)"
proof (induction pat s rule: startsWithCI.induct)
  case (1 s)
  show ?case by (simp add: matchesCI_def)
next
  case (2 p ps)
  show ?case by (simp add: matchesCI_def)
next
  case (3 p ps c cs)
  show ?case
  proof
    assume a: "startsWithCI (p # ps) (c # cs)"
    then have c: "canonicalize c = canonicalize p" and "startsWithCI ps cs"
      by (simp_all split: if_splits)
    with 3 obtain opener rest where "cs = opener @ rest" "matchesCI ps opener" by blast
    with c have "c # cs = (c # opener) @ rest" "matchesCI (p # ps) (c # opener)"
      by (simp_all add: matchesCI_def)
    then show "\<exists>opener rest. c # cs = opener @ rest \<and> matchesCI (p # ps) opener" by blast
  next
    assume "\<exists>opener rest. c # cs = opener @ rest \<and> matchesCI (p # ps) opener"
    then obtain opener rest where o: "c # cs = opener @ rest" "matchesCI (p # ps) opener"
      by blast
    from o(2) obtain d ds where d: "opener = d # ds" "canonicalize d = canonicalize p"
      "matchesCI ps ds"
      by (cases opener) (auto simp: matchesCI_def)
    with o(1) have "c = d" "cs = ds @ rest" by simp_all
    with d 3 show "startsWithCI (p # ps) (c # cs)" by auto
  qed
qed

lemma matchesCI_length: "matchesCI pat s \<Longrightarrow> length s = length pat"
  unfolding matchesCI_def by (metis length_map)

lemma indexOfCI_None_iff:
  "indexOfCI pat s = None \<longleftrightarrow> (\<forall>pre post. s = pre @ post \<longrightarrow> \<not> startsWithCI pat post)"
proof (induction s)
  case Nil
  show ?case by (cases pat) simp_all
next
  case (Cons c cs)
  show ?case
  proof (cases "startsWithCI pat (c # cs)")
    case True
    then have "\<exists>pre post. c # cs = pre @ post \<and> startsWithCI pat post"
      by (intro exI [of _ "[]"] exI [of _ "c # cs"]) simp
    with True show ?thesis by auto
  next
    case False
    have "(\<forall>pre post. c # cs = pre @ post \<longrightarrow> \<not> startsWithCI pat post)
            \<longleftrightarrow> (\<forall>pre post. cs = pre @ post \<longrightarrow> \<not> startsWithCI pat post)"
    proof
      assume a: "\<forall>pre post. c # cs = pre @ post \<longrightarrow> \<not> startsWithCI pat post"
      show "\<forall>pre post. cs = pre @ post \<longrightarrow> \<not> startsWithCI pat post"
      proof (intro allI impI)
        fix pre post assume "cs = pre @ post"
        then have "c # cs = (c # pre) @ post" by simp
        with a show "\<not> startsWithCI pat post" by blast
      qed
    next
      assume a: "\<forall>pre post. cs = pre @ post \<longrightarrow> \<not> startsWithCI pat post"
      show "\<forall>pre post. c # cs = pre @ post \<longrightarrow> \<not> startsWithCI pat post"
      proof (intro allI impI)
        fix pre post assume e: "c # cs = pre @ post"
        show "\<not> startsWithCI pat post"
        proof (cases pre)
          case Nil
          with e False show ?thesis by simp
        next
          case (Cons d pre')
          with e have "cs = pre' @ post" by simp
          with a show ?thesis by blast
        qed
      qed
    qed
    with False Cons show ?thesis by simp
  qed
qed


lemma indexOfCI_Some_iff:
  "indexOfCI pat s \<noteq> None \<longleftrightarrow>
     (\<exists>inner closer post. s = inner @ closer @ post \<and> matchesCI pat closer)"
proof
  assume "indexOfCI pat s \<noteq> None"
  then have "\<exists>pre post. s = pre @ post \<and> startsWithCI pat post"
    unfolding indexOfCI_None_iff by simp
  then obtain pre post where s: "s = pre @ post" and m: "startsWithCI pat post"
    by (elim exE conjE)
  from m obtain closer rest where p: "post = closer @ rest" and c: "matchesCI pat closer"
    unfolding startsWithCI_iff by (elim exE conjE)
  from s p have "s = pre @ closer @ rest" by simp
  with c show "\<exists>inner closer post. s = inner @ closer @ post \<and> matchesCI pat closer"
    by (intro exI [where x = pre] exI [where x = closer] exI [where x = rest]) simp
next
  assume "\<exists>inner closer post. s = inner @ closer @ post \<and> matchesCI pat closer"
  then obtain inner closer post where s: "s = inner @ closer @ post"
    and c: "matchesCI pat closer"
    by (elim exE conjE)
  have "startsWithCI pat (closer @ post)"
    unfolding startsWithCI_iff
    using c by (intro exI [where x = closer] exI [where x = post]) simp
  with s show "indexOfCI pat s \<noteq> None"
    unfolding indexOfCI_None_iff by (simp, intro exI [where x = inner] exI [where x = "closer @ post"]) simp
qed

lemma spanAt_iff:
  "spanAt pat closePat rest \<longleftrightarrow>
     (\<exists>opener inner closer post.
        rest = opener @ inner @ closer @ post
        \<and> matchesCI pat opener \<and> matchesCI closePat closer)"
proof
  assume "spanAt pat closePat rest"
  then have s: "startsWithCI pat rest" and i: "indexOfCI closePat (drop (length pat) rest) \<noteq> None"
    by (simp_all add: spanAt_def)
  from s obtain opener tail where r: "rest = opener @ tail" and m: "matchesCI pat opener"
    unfolding startsWithCI_iff by (elim exE conjE)
  from r matchesCI_length [OF m] have "drop (length pat) rest = tail" by simp
  with i have "indexOfCI closePat tail \<noteq> None" by simp
  then obtain inner closer post where t: "tail = inner @ closer @ post"
    and c: "matchesCI closePat closer"
    unfolding indexOfCI_Some_iff by (elim exE conjE)
  from r t have "rest = opener @ inner @ closer @ post" by simp
  with m c show "\<exists>opener inner closer post.
        rest = opener @ inner @ closer @ post
        \<and> matchesCI pat opener \<and> matchesCI closePat closer"
    by (intro exI [where x = opener] exI [where x = inner] exI [where x = closer]
          exI [where x = post]) simp
next
  assume "\<exists>opener inner closer post.
        rest = opener @ inner @ closer @ post
        \<and> matchesCI pat opener \<and> matchesCI closePat closer"
  then obtain opener inner closer post where
    r: "rest = opener @ inner @ closer @ post" and m: "matchesCI pat opener"
    and c: "matchesCI closePat closer"
    by (elim exE conjE)
  have s: "startsWithCI pat rest"
    unfolding startsWithCI_iff
    using r m by (intro exI [where x = opener] exI [where x = "inner @ closer @ post"]) simp
  from r matchesCI_length [OF m] have d: "drop (length pat) rest = inner @ closer @ post" by simp
  have "indexOfCI closePat (inner @ closer @ post) \<noteq> None"
    unfolding indexOfCI_Some_iff
    using c by (intro exI [where x = inner] exI [where x = closer] exI [where x = post]) simp
  with s d show "spanAt pat closePat rest" by (simp add: spanAt_def)
qed

lemma noSuffix_Nil: "noSuffix M [] \<longleftrightarrow> \<not> M []"
  by (simp add: noSuffix_def)

lemma noSuffix_Cons: "noSuffix M (c # cs) \<longleftrightarrow> \<not> M (c # cs) \<and> noSuffix M cs"
proof
  assume a: "noSuffix M (c # cs)"
  have "\<not> M (c # cs)" using a [unfolded noSuffix_def, rule_format, of "[]" "c # cs"] by simp
  moreover have "noSuffix M cs"
    unfolding noSuffix_def
  proof (intro allI impI)
    fix pre rest assume "cs = pre @ rest"
    then have "c # cs = (c # pre) @ rest" by simp
    with a show "\<not> M rest" unfolding noSuffix_def by blast
  qed
  ultimately show "\<not> M (c # cs) \<and> noSuffix M cs" ..
next
  assume a: "\<not> M (c # cs) \<and> noSuffix M cs"
  show "noSuffix M (c # cs)"
    unfolding noSuffix_def
  proof (intro allI impI)
    fix pre rest assume e: "c # cs = pre @ rest"
    show "\<not> M rest"
    proof (cases pre)
      case Nil
      with e a show ?thesis by simp
    next
      case (Cons d pre')
      with e have "cs = pre' @ rest" by simp
      with a show ?thesis unfolding noSuffix_def by blast
    qed
  qed
qed

lemma spanAtI:
  "rest = opener @ inner @ closer @ post \<Longrightarrow> matchesCI pat opener \<Longrightarrow>
   matchesCI closePat closer \<Longrightarrow> spanAt pat closePat rest"
  unfolding spanAt_iff
  by (rule exI [where x = opener], rule exI [where x = inner], rule exI [where x = closer],
      rule exI [where x = post]) simp

lemma spanAtE:
  assumes "spanAt pat closePat rest"
  obtains opener inner closer post where
    "rest = opener @ inner @ closer @ post" "matchesCI pat opener" "matchesCI closePat closer"
  using assms unfolding spanAt_iff by (elim exE conjE)

lemma noSuffix_iff: "\<not> noSuffix M s \<longleftrightarrow> (\<exists>pre rest. s = pre @ rest \<and> M rest)"
  unfolding noSuffix_def by simp

lemma fence_length: "length ''```html'' = 7"
  by simp

lemma mdMatches_Cons_empty:
  "mdMatches (c # cs) = [] \<longleftrightarrow> \<not> spanAt ''```html'' ''```'' (c # cs) \<and> mdMatches cs = []"
proof (cases "startsWithCI ''```html'' (c # cs)")
  case True
  then show ?thesis
    unfolding spanAt_def fence_length
    by (cases "indexOfCI ''```'' (drop 7 (c # cs))") (simp_all del: startsWithCI.simps)
next
  case False
  then show ?thesis
    unfolding spanAt_def by (simp del: startsWithCI.simps)
qed

lemma mdMatches_empty_iff:
  "mdMatches s = [] \<longleftrightarrow> noSuffix (spanAt ''```html'' ''```'') s"
proof (induction s)
  case Nil
  have "\<not> spanAt ''```html'' ''```'' []" by (simp add: spanAt_def)
  then show ?case by (simp add: noSuffix_Nil)
next
  case (Cons c cs)
  show ?case unfolding mdMatches_Cons_empty noSuffix_Cons Cons ..
qed

lemma hasFencedBlock_iff: "hasFencedBlock s \<longleftrightarrow> mdMatches s \<noteq> []"
proof
  assume "hasFencedBlock s"
  then obtain pre opener inner closer post where
    s: "s = pre @ opener @ inner @ closer @ post"
    and m: "matchesCI ''```html'' opener" "matchesCI ''```'' closer"
    unfolding hasFencedBlock_def by (elim exE conjE)
  from spanAtI [OF refl m] have "spanAt ''```html'' ''```'' (opener @ inner @ closer @ post)" .
  with s have "\<exists>pre rest. s = pre @ rest \<and> spanAt ''```html'' ''```'' rest"
    by (intro exI [where x = pre] exI [where x = "opener @ inner @ closer @ post"]) simp
  then show "mdMatches s \<noteq> []"
    unfolding mdMatches_empty_iff noSuffix_iff .
next
  assume "mdMatches s \<noteq> []"
  then obtain pre rest where s: "s = pre @ rest" and sp: "spanAt ''```html'' ''```'' rest"
    unfolding mdMatches_empty_iff noSuffix_iff by (elim exE conjE)
  from sp obtain opener inner closer post where
    r: "rest = opener @ inner @ closer @ post"
    and m: "matchesCI ''```html'' opener" "matchesCI ''```'' closer"
    by (rule spanAtE)
  from s r have "s = pre @ opener @ inner @ closer @ post" by simp
  with m show "hasFencedBlock s"
    unfolding hasFencedBlock_def
    by (intro exI [where x = pre] exI [where x = opener] exI [where x = inner]
          exI [where x = closer] exI [where x = post]) simp
qed


lemma raw_lengths: "length ''<!DOCTYPE html>'' = 15" "length ''<html'' = 5"
  by simp_all

lemma rawMatchAt_iff:
  "rawMatchAt s \<noteq> None \<longleftrightarrow>
     spanAt ''<!DOCTYPE html>'' ''</html>'' s \<or> spanAt ''<html'' ''</html>'' s"
  unfolding spanAt_def raw_lengths rawMatchAt_def
  by (cases "startsWithCI ''<!DOCTYPE html>'' s"; cases "startsWithCI ''<html'' s";
      cases "indexOfCI ''</html>'' (drop 15 s)"; cases "indexOfCI ''</html>'' (drop 5 s)")
     (simp_all del: startsWithCI.simps)

lemma rawMatches_Cons_empty:
  "rawMatches (c # cs) = [] \<longleftrightarrow> \<not> rawAt (c # cs) \<and> rawMatches cs = []"
proof (cases "rawMatchAt (c # cs)")
  case None
  then have "\<not> rawAt (c # cs)" unfolding rawAt_def using rawMatchAt_iff [of "c # cs"] by simp
  with None show ?thesis by simp
next
  case (Some n)
  then have "rawAt (c # cs)" unfolding rawAt_def using rawMatchAt_iff [of "c # cs"] by simp
  with Some show ?thesis by simp
qed

lemma rawMatches_empty_iff: "rawMatches s = [] \<longleftrightarrow> noSuffix rawAt s"
proof (induction s)
  case Nil
  have "\<not> rawAt []" by (simp add: rawAt_def spanAt_def)
  then show ?case by (simp add: noSuffix_Nil)
next
  case (Cons c cs)
  show ?case unfolding rawMatches_Cons_empty noSuffix_Cons Cons ..
qed

lemma hasRawDocument_iff: "hasRawDocument s \<longleftrightarrow> rawMatches s \<noteq> []"
proof
  assume "hasRawDocument s"
  then obtain pre opener inner closer post where
    s: "s = pre @ opener @ inner @ closer @ post"
    and o: "matchesCI ''<!DOCTYPE html>'' opener \<or> matchesCI ''<html'' opener"
    and c: "matchesCI ''</html>'' closer"
    unfolding hasRawDocument_def by (elim exE conjE)
  from o have "rawAt (opener @ inner @ closer @ post)"
  proof
    assume "matchesCI ''<!DOCTYPE html>'' opener"
    from spanAtI [OF refl this c] show ?thesis unfolding rawAt_def by (rule disjI1)
  next
    assume "matchesCI ''<html'' opener"
    from spanAtI [OF refl this c] show ?thesis unfolding rawAt_def by (rule disjI2)
  qed
  with s have "\<exists>pre rest. s = pre @ rest \<and> rawAt rest"
    by (intro exI [where x = pre] exI [where x = "opener @ inner @ closer @ post"]) simp
  then show "rawMatches s \<noteq> []"
    unfolding rawMatches_empty_iff noSuffix_iff .
next
  assume "rawMatches s \<noteq> []"
  then obtain pre rest where s: "s = pre @ rest" and r: "rawAt rest"
    unfolding rawMatches_empty_iff noSuffix_iff by (elim exE conjE)
  from r have "spanAt ''<!DOCTYPE html>'' ''</html>'' rest \<or> spanAt ''<html'' ''</html>'' rest"
    unfolding rawAt_def .
  then show "hasRawDocument s"
  proof
    assume "spanAt ''<!DOCTYPE html>'' ''</html>'' rest"
    then obtain opener inner closer post where
      r: "rest = opener @ inner @ closer @ post"
      and m: "matchesCI ''<!DOCTYPE html>'' opener" "matchesCI ''</html>'' closer"
      by (rule spanAtE)
    from s r have "s = pre @ opener @ inner @ closer @ post" by simp
    with m show ?thesis
      unfolding hasRawDocument_def
      by (intro exI [where x = pre] exI [where x = opener] exI [where x = inner]
            exI [where x = closer] exI [where x = post]) simp
  next
    assume "spanAt ''<html'' ''</html>'' rest"
    then obtain opener inner closer post where
      r: "rest = opener @ inner @ closer @ post"
      and m: "matchesCI ''<html'' opener" "matchesCI ''</html>'' closer"
      by (rule spanAtE)
    from s r have "s = pre @ opener @ inner @ closer @ post" by simp
    with m show ?thesis
      unfolding hasRawDocument_def
      by (intro exI [where x = pre] exI [where x = opener] exI [where x = inner]
            exI [where x = closer] exI [where x = post]) simp
  qed
qed


lemma includes_str_iff: "includes_str s pat \<longleftrightarrow> isSubstring pat s"
proof (induction s)
  case Nil
  show ?case by (auto simp: isSubstring_def)
next
  case (Cons c cs)
  show ?case
  proof
    assume "includes_str (c # cs) pat"
    then have "startsWith pat (c # cs) \<or> includes_str cs pat" by simp
    then show "isSubstring pat (c # cs)"
    proof
      assume "startsWith pat (c # cs)"
      then obtain r where "c # cs = pat @ r" unfolding startsWith_iff ..
      then have "c # cs = [] @ pat @ r" by simp
      then show ?thesis unfolding isSubstring_def
        by (intro exI [where x = "[]"] exI [where x = r])
    next
      assume "includes_str cs pat"
      with Cons have "isSubstring pat cs" by simp
      then obtain pre post where "cs = pre @ pat @ post"
        unfolding isSubstring_def by (elim exE)
      then have "c # cs = (c # pre) @ pat @ post" by simp
      then show ?thesis unfolding isSubstring_def
        by (intro exI [where x = "c # pre"] exI [where x = post])
    qed
  next
    assume "isSubstring pat (c # cs)"
    then obtain pre post where e: "c # cs = pre @ pat @ post"
      unfolding isSubstring_def by (elim exE)
    show "includes_str (c # cs) pat"
    proof (cases pre)
      case Nil
      with e have "\<exists>r. c # cs = pat @ r" by (intro exI [where x = post]) simp
      then have "startsWith pat (c # cs)" unfolding startsWith_iff .
      then show ?thesis by simp
    next
      case (Cons d pre')
      with e have "cs = pre' @ pat @ post" by simp
      then have "isSubstring pat cs" unfolding isSubstring_def
        by (intro exI [where x = pre'] exI [where x = post])
      with Cons.IH show ?thesis by simp
    qed
  qed
qed

lemma letter_canonical:
  "(let n = (of_char (canonicalize b) :: nat) in 65 \<le> n \<and> n \<le> 90) \<longleftrightarrow> isAsciiLetter b"
proof (cases b)
  case (Char b0 b1 b2 b3 b4 b5 b6 b7)
  show ?thesis unfolding Char
    by (cases b0; cases b1; cases b2; cases b3; cases b4; cases b5; cases b6; cases b7)
       (simp_all add: canonicalize_def isAsciiLetter_def Let_def)
qed

lemma tagAt_Cons2:
  "tagAt (a # b # cs) \<longleftrightarrow> a = CHR ''<'' \<and> isAsciiLetter b \<and> CHR ''>'' \<in> set cs"
proof
  assume "tagAt (a # b # cs)"
  then obtain b' mid post where e: "a # b # cs = CHR ''<'' # b' # mid @ CHR ''>'' # post"
    and l: "isAsciiLetter b'"
    unfolding tagAt_def by (elim exE conjE)
  from e have "a = CHR ''<''" "b = b'" "cs = mid @ CHR ''>'' # post" by simp_all
  with l show "a = CHR ''<'' \<and> isAsciiLetter b \<and> CHR ''>'' \<in> set cs" by simp
next
  assume a: "a = CHR ''<'' \<and> isAsciiLetter b \<and> CHR ''>'' \<in> set cs"
  then obtain mid post where "cs = mid @ CHR ''>'' # post"
    by (meson split_list)
  with a have "a # b # cs = CHR ''<'' # b # mid @ CHR ''>'' # post \<and> isAsciiLetter b" by simp
  then show "tagAt (a # b # cs)" unfolding tagAt_def
    by (intro exI [where x = b] exI [where x = mid] exI [where x = post])
qed

lemma tagAt_short: "\<not> tagAt []" "\<not> tagAt [a]"
  unfolding tagAt_def by simp_all

lemma looksLikeMarkup_iff: "looksLikeMarkup s \<longleftrightarrow> \<not> noSuffix tagAt s"
proof (induction s)
  case Nil
  show ?case by (simp add: noSuffix_Nil tagAt_short)
next
  case (Cons a s)
  show ?case
  proof (cases s)
    case Nil
    then show ?thesis by (simp add: noSuffix_Cons noSuffix_Nil tagAt_short)
  next
    case (Cons b cs)
    have "looksLikeMarkup (a # b # cs) \<longleftrightarrow> tagAt (a # b # cs) \<or> looksLikeMarkup (b # cs)"
      unfolding tagAt_Cons2 using letter_canonical [of b] by simp
    with Cons.IH Cons show ?thesis by (simp add: noSuffix_Cons [of tagAt a])
  qed
qed

lemma hasTagOpening_iff: "hasTagOpening s \<longleftrightarrow> looksLikeMarkup s"
proof
  assume "hasTagOpening s"
  then obtain pre b mid post where s: "s = pre @ CHR ''<'' # b # mid @ CHR ''>'' # post"
    and l: "isAsciiLetter b"
    unfolding hasTagOpening_def by (elim exE conjE)
  from l have "tagAt (CHR ''<'' # b # mid @ CHR ''>'' # post)"
    unfolding tagAt_def
    by (intro exI [where x = b] exI [where x = mid] exI [where x = post]) simp
  with s have "\<exists>pre rest. s = pre @ rest \<and> tagAt rest"
    by (intro exI [where x = pre] exI [where x = "CHR ''<'' # b # mid @ CHR ''>'' # post"]) simp
  then show "looksLikeMarkup s" unfolding looksLikeMarkup_iff noSuffix_iff .
next
  assume "looksLikeMarkup s"
  then obtain pre rest where s: "s = pre @ rest" and t: "tagAt rest"
    unfolding looksLikeMarkup_iff noSuffix_iff by (elim exE conjE)
  from t obtain b mid post where r: "rest = CHR ''<'' # b # mid @ CHR ''>'' # post"
    and l: "isAsciiLetter b"
    unfolding tagAt_def by (elim exE conjE)
  from s r l have "s = pre @ CHR ''<'' # b # mid @ CHR ''>'' # post \<and> isAsciiLetter b" by simp
  then show "hasTagOpening s" unfolding hasTagOpening_def
    by (intro exI [where x = pre] exI [where x = b] exI [where x = mid] exI [where x = post])
qed

lemma isBareFragment_iff:
  "isBareFragment s \<longleftrightarrow>
     looksLikeMarkup s \<and> (includes_str s ''<div'' \<or> includes_str s ''<style'')"
  unfolding isBareFragment_def hasTagOpening_iff includes_str_iff ..

lemma detectBlocks_none:
  "\<not> hasFencedBlock s \<Longrightarrow> \<not> hasRawDocument s \<Longrightarrow>
   detectBlocks s = (if isBareFragment (trim s) then [trim s] else [])"
  unfolding hasFencedBlock_iff hasRawDocument_iff isBareFragment_iff
  by (simp add: detectBlocks_def Let_def)

text \<open>
  C6. When none of the three detection tiers matches (no fenced \<open>```html\<close> block, no raw
  document span, and the trimmed input is not a bare markup fragment), \<open>extractArtifacts\<close>
  returns the empty list, whatever the host does.
\<close>

theorem C6_no_tier_no_artifacts:
  "\<not> hasFencedBlock text \<Longrightarrow> \<not> hasRawDocument text \<Longrightarrow>
   \<not> isBareFragment (trim text) \<Longrightarrow>
   extractArtifacts env now text = []"
  by (simp add: extractArtifacts_def detectBlocks_none)

theorem C6_no_tier_no_artifacts_witness:
  "\<not> hasFencedBlock plainText \<and> \<not> hasRawDocument plainText
   \<and> \<not> isBareFragment (trim plainText)
   \<and> extractArtifacts (exampleHost []) 0 plainText = []"
proof -
  have "mdMatches plainText = []" by code_simp
  then have h1: "\<not> hasFencedBlock plainText" unfolding hasFencedBlock_iff by simp
  have "rawMatches plainText = []" by code_simp
  then have h2: "\<not> hasRawDocument plainText" unfolding hasRawDocument_iff by simp
  have "\<not> (looksLikeMarkup (trim plainText)
          \<and> (includes_str (trim plainText) ''<div'' \<or> includes_str (trim plainText) ''<style''))"
    by code_simp
  then have h3: "\<not> isBareFragment (trim plainText)" unfolding isBareFragment_iff .
  show ?thesis using C6_no_tier_no_artifacts [OF h1 h2 h3] h1 h2 h3 by simp
qed

text \<open>
  C10. The bare-fragment tier tests for the tags case-sensitively: with no fence and no raw
  document, the only possible block is the trimmed input, and there is one only if the
  trimmed input contains the lower-case \<open><div\<close> or \<open><style\<close>; without them the result is
  empty, also for an input such as \<open><DIV class="x">Hello</DIV>\<close>, which holds a div tag.
\<close>

theorem C10_fallback_case_sensitive:
  "\<not> hasFencedBlock text \<Longrightarrow> \<not> hasRawDocument text \<Longrightarrow>
   (detectBlocks text = [trim text] \<or> detectBlocks text = [])
   \<and> (detectBlocks text \<noteq> [] \<longrightarrow>
         isSubstring ''<div'' (trim text) \<or> isSubstring ''<style'' (trim text))
   \<and> (\<not> isSubstring ''<div'' (trim text) \<and> \<not> isSubstring ''<style'' (trim text) \<longrightarrow>
         extractArtifacts env now text = [])"
  by (simp add: detectBlocks_none extractArtifacts_def isBareFragment_def)

theorem C10_fallback_case_sensitive_witness:
  "\<not> hasFencedBlock upperDiv \<and> \<not> hasRawDocument upperDiv
   \<and> hasTagOpening (trim upperDiv)
   \<and> isSubstring ''<div'' (toLowerCase (trim upperDiv))
   \<and> \<not> isSubstring ''<div'' (trim upperDiv) \<and> \<not> isSubstring ''<style'' (trim upperDiv)
   \<and> extractArtifacts (exampleHost []) 0 upperDiv = []"
proof -
  have "mdMatches upperDiv = []" by code_simp
  then have h1: "\<not> hasFencedBlock upperDiv" unfolding hasFencedBlock_iff by simp
  have "rawMatches upperDiv = []" by code_simp
  then have h2: "\<not> hasRawDocument upperDiv" unfolding hasRawDocument_iff by simp
  have "looksLikeMarkup (trim upperDiv)" by code_simp
  then have h3: "hasTagOpening (trim upperDiv)" unfolding hasTagOpening_iff .
  have "includes_str (toLowerCase (trim upperDiv)) ''<div''" by code_simp
  then have h4: "isSubstring ''<div'' (toLowerCase (trim upperDiv))" unfolding includes_str_iff .
  have "\<not> includes_str (trim upperDiv) ''<div''" by code_simp
  then have h5: "\<not> isSubstring ''<div'' (trim upperDiv)" unfolding includes_str_iff .
  have "\<not> includes_str (trim upperDiv) ''<style''" by code_simp
  then have h6: "\<not> isSubstring ''<style'' (trim upperDiv)" unfolding includes_str_iff .
  show ?thesis
    using C10_fallback_case_sensitive [OF h1 h2, of "exampleHost []" 0] h1 h2 h3 h4 h5 h6
    by simp
qed

section \<open>Repeated runs\<close>

lemma splitTargets_codeTitle:
  "map codeTitle (splitTargets env now1 bi h ts ci [])
     = map codeTitle (splitTargets env now2 bi h ts ci [])"
  by (simp add: splitTargets_map codeTitle_def splitArtifact_def)

lemma processBlock_alt:
  "processBlock env now arts block bi =
     fst (tryBlock env now arts block bi)
       @ (case snd (tryBlock env now arts block bi) of
            None \<Rightarrow> []
          | Some e \<Rightarrow> [errArtifact now bi block])"
  by (simp add: processBlock_def split: prod.splits option.splits)

lemma tryBlock_codeTitle:
  "map codeTitle (fst (tryBlock env now1 [] block bi))
     = map codeTitle (fst (tryBlock env now2 [] block bi))
   \<and> snd (tryBlock env now1 [] block bi) = snd (tryBlock env now2 [] block bi)"
proof -
  have b: "codeTitle (blockArtifact now1 bi block) = codeTitle (blockArtifact now2 bi block)"
    by (simp add: codeTitle_def blockArtifact_def)
  have s: "\<And>h ts. map codeTitle (splitTargets env now1 bi h ts 0 [])
             = map codeTitle (splitTargets env now2 bi h ts 0 [])"
    by (rule splitTargets_codeTitle)
  show ?thesis
    unfolding tryBlock_def Let_def using b s by (simp split: sum.splits)
qed

lemma processBlock_codeTitle:
  "map codeTitle (processBlock env now1 [] block bi)
     = map codeTitle (processBlock env now2 [] block bi)"
proof -
  have e: "codeTitle (errArtifact now1 bi block) = codeTitle (errArtifact now2 bi block)"
    by (simp add: codeTitle_def errArtifact_def)
  show ?thesis
    using e tryBlock_codeTitle [of env now1 block bi now2]
    by (simp add: processBlock_alt split: option.splits)
qed

lemma processBlocks_codeTitle:
  "map codeTitle (processBlocks env now1 [] blocks bi)
     = map codeTitle (processBlocks env now2 [] blocks bi)"
proof (induction blocks arbitrary: bi)
  case Nil
  show ?case by simp
next
  case (Cons b bs)
  show ?case
    using Cons.IH [of "Suc bi"] processBlock_codeTitle [of env now1 b bi now2]
    by (simp only: processBlocks_Cons map_append)
qed

text \<open>
  C9. Two runs of \<open>extractArtifacts\<close> on the same text, on the same host and at possibly
  different times, return lists of the same length with the same \<open>code\<close> and \<open>title\<close>
  fields in the same order; only the ids depend on the time.
\<close>

theorem C9_rerun_same_code_and_title:
  "length (extractArtifacts env now1 text) = length (extractArtifacts env now2 text)
   \<and> map code (extractArtifacts env now1 text) = map code (extractArtifacts env now2 text)
   \<and> map title (extractArtifacts env now1 text) = map title (extractArtifacts env now2 text)"
proof -
  let ?a = "extractArtifacts env now1 text" and ?b = "extractArtifacts env now2 text"
  have ct: "map codeTitle ?a = map codeTitle ?b"
    unfolding extractArtifacts_def by (rule processBlocks_codeTitle)
  have "length (map codeTitle ?a) = length (map codeTitle ?b)" using ct by simp
  then have l: "length ?a = length ?b" by simp
  have "map fst (map codeTitle ?a) = map fst (map codeTitle ?b)" using ct by simp
  then have c: "map code ?a = map code ?b" by (simp add: codeTitle_def comp_def)
  have "map snd (map codeTitle ?a) = map snd (map codeTitle ?b)" using ct by simp
  then have t: "map title ?a = map title ?b" by (simp add: codeTitle_def comp_def)
  from l c t show ?thesis by simp
qed

theorem C9_rerun_same_code_and_title_witness:
  "map code (extractArtifacts (exampleHost exampleDocuments) 7 wrapperBlock)
     = map code (extractArtifacts (exampleHost exampleDocuments) 8 wrapperBlock)
   \<and> map title (extractArtifacts (exampleHost exampleDocuments) 7 wrapperBlock)
     = map title (extractArtifacts (exampleHost exampleDocuments) 8 wrapperBlock)
   \<and> map title (extractArtifacts (exampleHost exampleDocuments) 7 wrapperBlock)
     = [''Card 1'', ''Card 2'']
   \<and> map id_a (extractArtifacts (exampleHost exampleDocuments) 7 wrapperBlock)
     = [''artifact-split-7-0-0'', ''artifact-split-7-0-1'']
   \<and> map id_a (extractArtifacts (exampleHost exampleDocuments) 8 wrapperBlock)
     = [''artifact-split-8-0-0'', ''artifact-split-8-0-1'']"
proof -
  have t: "map title (extractArtifacts (exampleHost exampleDocuments) 7 wrapperBlock)
     = [''Card 1'', ''Card 2'']"
    by code_simp
  have i: "map id_a (extractArtifacts (exampleHost exampleDocuments) 7 wrapperBlock)
     = [''artifact-split-7-0-0'', ''artifact-split-7-0-1'']"
    by code_simp
  have j: "map id_a (extractArtifacts (exampleHost exampleDocuments) 8 wrapperBlock)
     = [''artifact-split-8-0-0'', ''artifact-split-8-0-1'']"
    by code_simp
  show ?thesis
    using C9_rerun_same_code_and_title
      [of "exampleHost exampleDocuments" 7 wrapperBlock 8] t i j
    by simp
qed

section \<open>Blocks that are not split\<close>

lemma processBlock_no_split:
  "\<not> triggersSplit env block \<Longrightarrow>
   processBlock env now [] block bi = [blockArtifact now bi block]
   \<or> processBlock env now [] block bi = [errArtifact now bi block]"
  by (auto simp: triggersSplit_def processBlock_def tryBlock_def split: sum.splits)

lemma processBlock_no_split_code:
  "\<not> triggersSplit env block \<Longrightarrow> map code (processBlock env now [] block bi) = [block]"
  using processBlock_no_split [of env block now bi]
  by (auto simp: blockArtifact_def errArtifact_def)

lemma processBlocks_no_split_code:
  "\<forall>block \<in> set blocks. \<not> triggersSplit env block \<Longrightarrow>
   map code (processBlocks env now [] blocks bi) = blocks"
proof (induction blocks arbitrary: bi)
  case Nil
  show ?case by simp
next
  case (Cons b bs)
  have "map code (processBlock env now [] b bi) = [b]"
    using Cons.prems by (simp add: processBlock_no_split_code)
  moreover have "map code (processBlocks env now [] bs (Suc bi)) = bs"
    using Cons.prems by (intro Cons.IH) simp
  ultimately show ?case by (simp only: processBlocks_Cons map_append) simp
qed

text \<open>
  C7. For a markdown input (it has a fenced \<open>```html\<close> block, or else neither a raw
  document nor a bare fragment, so that its blocks are its fenced blocks) none of
  whose fences reaches the split branch, \<open>extractArtifacts\<close> returns as many artifacts as
  there are fences, in the order of the fences, and the code of each artifact is the
  trimmed inner content of its fence.
\<close>

theorem C7_fences_without_split:
  "hasFencedBlock text \<or> (\<not> hasRawDocument text \<and> \<not> isBareFragment (trim text)) \<Longrightarrow>
   \<forall>block \<in> set (map trim (mdMatches text)). \<not> triggersSplit env block \<Longrightarrow>
   length (extractArtifacts env now text) = length (mdMatches text)
   \<and> map code (extractArtifacts env now text) = map trim (mdMatches text)"
proof -
  assume md: "hasFencedBlock text \<or> (\<not> hasRawDocument text \<and> \<not> isBareFragment (trim text))"
  assume ns: "\<forall>block \<in> set (map trim (mdMatches text)). \<not> triggersSplit env block"
  have blocks: "detectBlocks text = map trim (mdMatches text)"
  proof (cases "mdMatches text = []")
    case True
    then have "\<not> hasFencedBlock text" unfolding hasFencedBlock_iff by simp
    with md True show ?thesis by (simp add: detectBlocks_none)
  next
    case False
    then show ?thesis by (simp add: detectBlocks_def Let_def)
  qed
  have c: "map code (extractArtifacts env now text) = map trim (mdMatches text)"
    unfolding extractArtifacts_def blocks using ns by (rule processBlocks_no_split_code)
  then have "length (map code (extractArtifacts env now text)) = length (map trim (mdMatches text))"
    by simp
  then have "length (extractArtifacts env now text) = length (mdMatches text)" by simp
  with c show ?thesis by simp
qed

theorem C7_fences_without_split_witness:
  "hasFencedBlock markdownText
   \<and> mdMatches markdownText = [[CHR 0x0A] @ paragraphBlock @ [CHR 0x0A], [CHR 0x0A] @ cardBlock @ [CHR 0x0A]]
   \<and> \<not> triggersSplit (exampleHost exampleDocuments) paragraphBlock
   \<and> \<not> triggersSplit (exampleHost exampleDocuments) cardBlock
   \<and> length (extractArtifacts (exampleHost exampleDocuments) 7 markdownText) = 2
   \<and> map code (extractArtifacts (exampleHost exampleDocuments) 7 markdownText)
       = [paragraphBlock, cardBlock]"
proof -
  have m: "mdMatches markdownText
             = [[CHR 0x0A] @ paragraphBlock @ [CHR 0x0A], [CHR 0x0A] @ cardBlock @ [CHR 0x0A]]"
    by code_simp
  have t: "map trim (mdMatches markdownText) = [paragraphBlock, cardBlock]"
    by code_simp
  have p: "\<not> triggersSplit (exampleHost exampleDocuments) paragraphBlock" by code_simp
  have c: "\<not> triggersSplit (exampleHost exampleDocuments) cardBlock" by code_simp
  have f: "hasFencedBlock markdownText" unfolding hasFencedBlock_iff using m by simp
  then have h1: "hasFencedBlock markdownText
      \<or> (\<not> hasRawDocument markdownText \<and> \<not> isBareFragment (trim markdownText))"
    by (rule disjI1)
  have h2: "\<forall>block \<in> set (map trim (mdMatches markdownText)).
              \<not> triggersSplit (exampleHost exampleDocuments) block"
    unfolding t using p c by simp
  show ?thesis
    using C7_fences_without_split [OF h1 h2, of 7] f m t p c by simp
qed

section \<open>Blocks that are split\<close>






section \<open>The wrapper-peel step\<close>

























section \<open>Ids\<close>

lemma showNat_unfold:
  "showNat n = (if n < 10 then [char_of (48 + n)] else showNat (n div 10) @ [char_of (48 + n mod 10)])"
  by (rule showNat.simps)

lemma showNat_nonempty: "showNat n \<noteq> []"
  by (subst showNat_unfold) simp

lemma digit_char_inj:
  "a < 10 \<Longrightarrow> b < 10 \<Longrightarrow> char_of (48 + a :: nat) = char_of (48 + b) \<Longrightarrow> a = b"
  by simp

lemma digit_char_no_dash: "a < 10 \<Longrightarrow> char_of (48 + a :: nat) \<noteq> CHR ''-''"
  by (simp add: char_of_eq_iff take_bit_eq_mod)

lemma showNat_no_dash: "CHR ''-'' \<notin> set (showNat n)"
proof (induction n rule: showNat.induct)
  case (1 n)
  show ?case
  proof (cases "n < 10")
    case True
    then show ?thesis using digit_char_no_dash [of n] by (subst showNat_unfold) auto
  next
    case False
    then show ?thesis
      using "1.IH" digit_char_no_dash [of "n mod 10"] by (subst showNat_unfold) auto
  qed
qed

lemma showNat_inj: "showNat m = showNat n \<Longrightarrow> m = n"
proof (induction m arbitrary: n rule: showNat.induct)
  case (1 m)
  show ?case
  proof (cases "m < 10")
    case m: True
    show ?thesis
    proof (cases "n < 10")
      case True
      with m "1.prems" show ?thesis
        using showNat_unfold [of m] showNat_unfold [of n] digit_char_inj [of m n] by simp
    next
      case False
      with m "1.prems" show ?thesis
        using showNat_unfold [of m] showNat_unfold [of n] showNat_nonempty [of "n div 10"]
        by simp
    qed
  next
    case m: False
    show ?thesis
    proof (cases "n < 10")
      case True
      with m "1.prems" show ?thesis
        using showNat_unfold [of m] showNat_unfold [of n] showNat_nonempty [of "m div 10"]
        by simp
    next
      case False
      have "showNat (m div 10) @ [char_of (48 + m mod 10)]
              = showNat (n div 10) @ [char_of (48 + n mod 10)]"
        using m False "1.prems" showNat_unfold [of m] showNat_unfold [of n] by simp
      then have a: "showNat (m div 10) = showNat (n div 10)"
        and b: "char_of (48 + m mod 10) = char_of (48 + n mod 10)"
        by simp_all
      from "1.IH" [OF m a] have d: "m div 10 = n div 10" .
      from b have e: "m mod 10 = n mod 10"
        using digit_char_inj [of "m mod 10" "n mod 10"] by simp
      from d e show ?thesis by (metis div_mult_mod_eq)
    qed
  qed
qed

lemma dash_split:
  "CHR ''-'' \<notin> set xs \<Longrightarrow> CHR ''-'' \<notin> set xs' \<Longrightarrow>
   xs @ CHR ''-'' # ys = xs' @ CHR ''-'' # ys' \<Longrightarrow> xs = xs' \<and> ys = ys'"
proof (induction xs arbitrary: xs')
  case Nil
  then show ?case by (cases xs') auto
next
  case (Cons x xs)
  then show ?case by (cases xs') auto
qed

lemma idSplit_inj: "idSplit now b c = idSplit now b' c' \<Longrightarrow> b = b' \<and> c = c'"
proof -
  assume "idSplit now b c = idSplit now b' c'"
  then have "showNat b @ CHR ''-'' # showNat c = showNat b' @ CHR ''-'' # showNat c'"
    by (simp add: idSplit_def)
  from dash_split [OF showNat_no_dash showNat_no_dash this]
  show ?thesis by (auto dest: showNat_inj)
qed

lemma idBlock_inj: "idBlock now b = idBlock now b' \<Longrightarrow> b = b'"
  by (auto simp: idBlock_def dest: showNat_inj)

lemma idErr_inj: "idErr now b = idErr now b' \<Longrightarrow> b = b'"
  by (auto simp: idErr_def dest: showNat_inj)

lemma id_split_block: "idSplit now b c \<noteq> idBlock now' b'"
  by (simp add: idSplit_def idBlock_def)

lemma id_split_err: "idSplit now b c \<noteq> idErr now' b'"
  by (simp add: idSplit_def idErr_def)

lemma id_block_err: "idBlock now b \<noteq> idErr now' b'"
  by (simp add: idBlock_def idErr_def)

lemmas id_kinds =
  id_split_block id_split_err id_block_err
  id_split_block [symmetric] id_split_err [symmetric] id_block_err [symmetric]

lemma idsOf_disjoint: "b \<noteq> b' \<Longrightarrow> idsOf now b \<inter> idsOf now b' = {}"
  by (auto simp: idsOf_def id_kinds dest: idSplit_inj idBlock_inj idErr_inj)

lemma distinct_idSplit: "distinct (map (idSplit now b) [i..<j])"
  by (auto simp: distinct_map inj_on_def dest: idSplit_inj)

lemma splitTargets_ids:
  "map id_a (splitTargets env now b h ts ci []) = map (idSplit now b) [ci..<ci + length ts]"
proof -
  have "[ci..<ci + length ts] = map (\<lambda>i. i + ci) [0..<length ts]"
    by (simp add: map_add_upt add.commute)
  then show ?thesis
    by (simp add: splitTargets_map splitArtifact_def idSplit_def comp_def add.commute)
qed

lemma tryBlock_ids:
  "(map id_a (fst (tryBlock env now [] block b)) = [idBlock now b]
      \<and> snd (tryBlock env now [] block b) = None)
   \<or> (\<exists>k. map id_a (fst (tryBlock env now [] block b)) = map (idSplit now b) [0..<k])"
proof -
  have e: "map id_a [] = map (idSplit now b) [0..<0]" by simp
  have s: "\<And>h ts. \<exists>k. map id_a (splitTargets env now b h ts 0 [])
             = map (idSplit now b) [0..<k]"
    using splitTargets_ids [of env now b _ _ 0] by auto
  show ?thesis
    unfolding tryBlock_def Let_def using e s
    by (auto split: sum.splits simp: blockArtifact_def idBlock_def)
qed

lemma processBlock_ids:
  "distinct (map id_a (processBlock env now [] block b))
   \<and> set (map id_a (processBlock env now [] block b)) \<subseteq> idsOf now b"
proof -
  have err: "id_a (errArtifact now b block) = idErr now b"
    by (simp add: errArtifact_def idErr_def)
  from tryBlock_ids [of env now block b] show ?thesis
  proof
    assume "map id_a (fst (tryBlock env now [] block b)) = [idBlock now b]
      \<and> snd (tryBlock env now [] block b) = None"
    then show ?thesis by (simp add: processBlock_alt idsOf_def)
  next
    assume "\<exists>k. map id_a (fst (tryBlock env now [] block b)) = map (idSplit now b) [0..<k]"
    then obtain k where
      k: "map id_a (fst (tryBlock env now [] block b)) = map (idSplit now b) [0..<k]" ..
    have d: "distinct (map (idSplit now b) [0..<k])" by (rule distinct_idSplit)
    have n: "idErr now b \<notin> set (map (idSplit now b) [0..<k])"
      by (auto simp: id_kinds)
    have sub: "set (map (idSplit now b) [0..<k]) \<subseteq> idsOf now b"
      by (auto simp: idsOf_def)
    have ein: "idErr now b \<in> idsOf now b" by (simp add: idsOf_def)
    show ?thesis
      using k d n sub ein err
      by (cases "snd (tryBlock env now [] block b)") (simp_all add: processBlock_alt)
  qed
qed

lemma processBlocks_ids:
  "distinct (map id_a (processBlocks env now [] blocks bi))
   \<and> set (map id_a (processBlocks env now [] blocks bi))
       \<subseteq> (\<Union>j \<in> {bi..<bi + length blocks}. idsOf now j)"
proof (induction blocks arbitrary: bi)
  case Nil
  show ?case by simp
next
  case (Cons b bs)
  let ?x = "map id_a (processBlock env now [] b bi)"
  let ?y = "map id_a (processBlocks env now [] bs (Suc bi))"
  have x: "distinct ?x" "set ?x \<subseteq> idsOf now bi"
    using processBlock_ids [of env now b bi] by simp_all
  have y: "distinct ?y" "set ?y \<subseteq> (\<Union>j \<in> {Suc bi..<Suc bi + length bs}. idsOf now j)"
    using Cons.IH [of "Suc bi"] by simp_all
  have disj: "set ?x \<inter> set ?y = {}"
  proof -
    have "idsOf now bi \<inter> idsOf now j = {}" if "j \<in> {Suc bi..<Suc bi + length bs}" for j
      using that by (intro idsOf_disjoint) simp
    then have "idsOf now bi \<inter> (\<Union>j \<in> {Suc bi..<Suc bi + length bs}. idsOf now j) = {}"
      by blast
    with x(2) y(2) show ?thesis by blast
  qed
  have eq: "map id_a (processBlocks env now [] (b # bs) bi) = ?x @ ?y"
    by (simp only: processBlocks_Cons map_append)
  have sub: "set (?x @ ?y) \<subseteq> (\<Union>j \<in> {bi..<bi + length (b # bs)}. idsOf now j)"
  proof
    fix i assume "i \<in> set (?x @ ?y)"
    then consider "i \<in> set ?x" | "i \<in> set ?y" by auto
    then show "i \<in> (\<Union>j \<in> {bi..<bi + length (b # bs)}. idsOf now j)"
    proof cases
      case 1
      with x(2) have "i \<in> idsOf now bi" by blast
      then show ?thesis by force
    next
      case 2
      with y(2) obtain j where "j \<in> {Suc bi..<Suc bi + length bs}" "i \<in> idsOf now j" by blast
      then show ?thesis by force
    qed
  qed
  show ?case unfolding eq using x(1) y(1) disj sub by simp
qed

text \<open>
  The preview takes \<open>preview-\<close> and the id of an artifact as its wrapper id; no \<open>$\<close>
  stands in it.
\<close>

lemma digit_char_no_dollar: "a < 10 \<Longrightarrow> char_of (48 + a :: nat) \<noteq> CHR ''$''"
  by (simp add: char_of_eq_iff take_bit_eq_mod)

lemma showNat_no_dollar: "CHR ''$'' \<notin> set (showNat n)"
proof (induction n rule: showNat.induct)
  case (1 n)
  show ?case
  proof (cases "n < 10")
    case True
    then show ?thesis using digit_char_no_dollar [of n] by (subst showNat_unfold) auto
  next
    case False
    then show ?thesis
      using "1.IH" digit_char_no_dollar [of "n mod 10"] by (subst showNat_unfold) auto
  qed
qed

lemma showInt_no_dollar: "CHR ''$'' \<notin> set (showInt i)"
  by (simp add: showInt_def showNat_no_dollar)

lemma idsOf_no_dollar: "x \<in> idsOf now b \<Longrightarrow> CHR ''$'' \<notin> set x"
  by (auto simp: idsOf_def idBlock_def idErr_def idSplit_def showNat_no_dollar showInt_no_dollar)

lemma preview_wrapper_id_plain:
  "a \<in> set (extractArtifacts env now text) \<Longrightarrow> CHR ''$'' \<notin> set (''preview-'' @ id_a a)"
proof -
  assume "a \<in> set (extractArtifacts env now text)"
  then have "id_a a \<in> set (map id_a (processBlocks env now [] (detectBlocks text) 0))"
    by (simp add: extractArtifacts_def)
  with processBlocks_ids [of env now "detectBlocks text" 0]
  obtain j where "id_a a \<in> idsOf now j" by blast
  from idsOf_no_dollar [OF this] show ?thesis by simp
qed

text \<open>
  The ids of split artifacts of a block and the id of its fallback artifact are distinct:
  a list of ids stays free of repetitions when a fallback follows split artifacts.
\<close>

lemma split_then_fallback_ids:
  "distinct (map (idSplit now b) [0..<k] @ [idErr now b])"
  using distinct_idSplit [of now b 0 k] by (auto simp: id_kinds)



section \<open>Failure isolation\<close>





section \<open>Titles\<close>

lemma orElse_nonempty: "b \<noteq> [] \<Longrightarrow> orElse a b \<noteq> []"
  by (cases a) auto

lemma titleText_nonempty: "titleText child i \<noteq> []"
  unfolding titleText_def by (intro orElse_nonempty) simp

lemma split_title_bounded:
  "title (splitArtifact now b c code_text t) =
     (if length t \<le> 30 then t else take 30 t @ ''...'')
   \<and> length (title (splitArtifact now b c code_text t)) \<le> 33
   \<and> (t \<noteq> [] \<longrightarrow> title (splitArtifact now b c code_text t) \<noteq> [])"
  by (auto simp: splitArtifact_def truncateTitle_def)

text \<open>
  C1 does not hold on the no-split path. The title of a split artifact is never empty and
  is the resolved text, cut to 30 characters and an ellipsis when longer
  (\<open>titleText_nonempty\<close>, \<open>split_title_bounded\<close>); the no-split path takes the content of
  \<open><title>\<close> as it is. Here the code is run on a raw document whose title has 46
  characters, and on one whose title is empty.
\<close>

theorem C1_no_split_title_not_truncated:
  "extractArtifacts (exampleHost exampleDocuments) 7 longTitleBlock
     = [\<lparr> id_a = ''artifact-block-7-0'', code = longTitleBlock,
           title = ''Quarterly revenue dashboard for the sales team'', type_a = Html \<rparr>]
   \<and> length ''Quarterly revenue dashboard for the sales team'' = 46
   \<and> extractArtifacts (exampleHost exampleDocuments) 7 emptyTitleBlock
     = [\<lparr> id_a = ''artifact-block-7-0'', code = emptyTitleBlock, title = [], type_a = Html \<rparr>]"
  by code_simp

section \<open>Scoping of the styles\<close>

lemma not_ws [simp]:
  "\<not> isWhiteSpace CHR ''b''" "\<not> isWhiteSpace CHR ''}''" "\<not> isWhiteSpace CHR '',''"
  by (simp_all add: isWhiteSpace_def)

lemma dropWhile_ws:
  "list_all isWhiteSpace ws \<Longrightarrow> \<not> isWhiteSpace c \<Longrightarrow>
   dropWhile isWhiteSpace (ws @ c # r) = c # r"
  by (induction ws) simp_all

lemma bodyAfterSpaces_iff:
  "bodyAfterSpaces s = Some r \<longleftrightarrow> (\<exists>ws. list_all isWhiteSpace ws \<and> s = ws @ ''body'' @ r)"
proof
  assume a: "bodyAfterSpaces s = Some r"
  let ?d = "dropWhile isWhiteSpace s"
  from a have r: "r = drop 4 ?d" and t: "startsWith ''body'' ?d"
    by (auto simp: bodyAfterSpaces_def Let_def split: if_splits)
  from t obtain r' where d: "?d = ''body'' @ r'" unfolding startsWith_iff ..
  with r have "r' = r" by simp
  with d have d: "?d = ''body'' @ r" by simp
  have "s = takeWhile isWhiteSpace s @ ?d" by simp
  with d have "s = takeWhile isWhiteSpace s @ ''body'' @ r" by simp
  moreover have "list_all isWhiteSpace (takeWhile isWhiteSpace s)"
    by (simp add: list_all_iff) (meson set_takeWhileD)
  ultimately show "\<exists>ws. list_all isWhiteSpace ws \<and> s = ws @ ''body'' @ r" by blast
next
  assume "\<exists>ws. list_all isWhiteSpace ws \<and> s = ws @ ''body'' @ r"
  then obtain ws where ws: "list_all isWhiteSpace ws" and s: "s = ws @ ''body'' @ r" by blast
  have d: "dropWhile isWhiteSpace s = ''body'' @ r"
    unfolding s using dropWhile_ws [OF ws, of "CHR ''b''" "''ody'' @ r"] by simp
  have "startsWith ''body'' (''body'' @ r)" unfolding startsWith_iff by blast
  with d show "bodyAfterSpaces s = Some r"
    by (simp add: bodyAfterSpaces_def Let_def)
qed

lemma bodyAfterSpaces_anchor:
  "a = CHR ''}'' \<or> a = CHR '','' \<Longrightarrow> bodyAfterSpaces (a # cs) = None"
  by (auto simp: bodyAfterSpaces_def Let_def startsWith_iff)

lemma scopeMatch_iff:
  "scopeMatch atStart s = Some (cap, r) \<longleftrightarrow>
     (atStart \<and> cap = [] \<and> bodyAfterSpaces s = Some r)
     \<or> (\<exists>a cs. s = a # cs \<and> (a = CHR ''}'' \<or> a = CHR '','') \<and> cap = [a]
            \<and> bodyAfterSpaces cs = Some r)"
  by (cases s) (auto simp: scopeMatch_def bodyAfterSpaces_anchor split: option.splits)

lemma scopeMatch_Nil [simp]: "scopeMatch atStart [] = None"
  by (simp add: scopeMatch_def bodyAfterSpaces_def startsWith_iff)

lemma replaceBody_Nil [simp]: "replaceBody t pre [] = []"
  by (subst replaceBody.simps) simp

lemma replaceBody_nomatch:
  "scopeMatch (pre = []) (c # cs) = None \<Longrightarrow>
   replaceBody t pre (c # cs) = c # replaceBody t (pre @ [c]) cs"
  by (subst replaceBody.simps) simp

lemma replaceBody_match:
  "scopeMatch (pre = []) s = Some (cap, r) \<Longrightarrow>
   replaceBody t pre s =
     getSubstitution (take (length s - length r) s) pre r cap t
       @ replaceBody t (pre @ take (length s - length r) s) r"
  by (subst replaceBody.simps) simp



lemma getSubstitution_Cons:
  "c \<noteq> CHR ''$'' \<Longrightarrow>
   getSubstitution m pre post cap (c # t) = c # getSubstitution m pre post cap t"
  by (cases t) simp_all

lemma getSubstitution_plain:
  "CHR ''$'' \<notin> set t \<Longrightarrow> getSubstitution m pre post cap t = t"
proof (induction t)
  case Nil
  show ?case by simp
next
  case (Cons c t)
  then have "c \<noteq> CHR ''$''" and "getSubstitution m pre post cap t = t" by auto
  then show ?case by (simp add: getSubstitution_Cons)
qed

lemma getSubstitution_template:
  "CHR ''$'' \<notin> set wrapperId \<Longrightarrow>
   getSubstitution m pre post cap (''$1 #'' @ wrapperId) = cap @ '' #'' @ wrapperId"
proof -
  assume a: "CHR ''$'' \<notin> set wrapperId"
  have d: "isDigit CHR ''1''" "\<not> isDigit CHR '' ''" by (simp_all add: isDigit_def)
  have "getSubstitution m pre post cap (CHR ''$'' # CHR ''1'' # CHR '' '' # CHR ''#'' # wrapperId)
          = cap @ getSubstitution m pre post cap (CHR '' '' # CHR ''#'' # wrapperId)"
    by (subst getSubstitution.simps) (simp add: d)
  also have "getSubstitution m pre post cap (CHR '' '' # CHR ''#'' # wrapperId)
               = CHR '' '' # CHR ''#'' # wrapperId"
    using a by (intro getSubstitution_plain) simp
  finally show ?thesis by simp
qed


lemma body_prefix_split:
  assumes ws: "list_all isWhiteSpace ws" and a: "a = CHR ''}'' \<or> a = CHR '',''"
    and eq: "v @ a # tail = ws @ ''body'' @ r"
  shows "\<exists>v'. v = ws @ ''body'' @ v' \<and> r = v' @ a # tail"
proof -
  from eq have "v @ a # tail = (ws @ ''body'') @ r" by simp
  then obtain us where
    "(v = (ws @ ''body'') @ us \<and> us @ a # tail = r)
     \<or> (v @ us = ws @ ''body'' \<and> a # tail = us @ r)"
    unfolding append_eq_append_conv2 by blast
  then show ?thesis
  proof
    assume "v = (ws @ ''body'') @ us \<and> us @ a # tail = r"
    then show ?thesis by auto
  next
    assume b: "v @ us = ws @ ''body'' \<and> a # tail = us @ r"
    show ?thesis
    proof (cases us)
      case Nil
      with b show ?thesis by auto
    next
      case (Cons x us')
      from b Cons have e: "v @ x # us' = ws @ ''body''" and ax: "a = x" by auto
      have "x \<in> set (v @ x # us')" by simp
      then have "x \<in> set (ws @ ''body'')" unfolding e .
      then have "a \<in> set ws \<or> a \<in> set ''body''"
        using ax by (simp only: set_append Un_iff)
      then have False
      proof
        assume "a \<in> set ws"
        with ws have "isWhiteSpace a" by (simp add: list_all_iff)
        with a show False by auto
      next
        assume "a \<in> set ''body''"
        with a show False by auto
      qed
      then show ?thesis ..
    qed
  qed
qed

lemma bodyAfterSpaces_extend:
  "bodyAfterSpaces v = Some v' \<Longrightarrow> bodyAfterSpaces (v @ x) = Some (v' @ x)"
  unfolding bodyAfterSpaces_iff by auto

lemma bodyAfterSpaces_restrict:
  "bodyAfterSpaces (v @ a # tail) = Some r \<Longrightarrow> a = CHR ''}'' \<or> a = CHR '','' \<Longrightarrow>
   \<exists>v'. r = v' @ a # tail \<and> bodyAfterSpaces v = Some v'"
  unfolding bodyAfterSpaces_iff by (metis body_prefix_split)

lemma scopeMatch_extend:
  "scopeMatch st u = Some (cap, u') \<Longrightarrow> scopeMatch st (u @ x) = Some (cap, u' @ x)"
  unfolding scopeMatch_iff by (auto dest: bodyAfterSpaces_extend)

lemma scopeMatch_restrict:
  assumes m: "scopeMatch st (u @ a # tail) = Some (cap, r)"
    and a: "a = CHR ''}'' \<or> a = CHR '',''" and u: "u \<noteq> []"
  shows "\<exists>u'. r = u' @ a # tail \<and> scopeMatch st u = Some (cap, u')"
proof -
  from m consider
    (start) "st" "cap = []" "bodyAfterSpaces (u @ a # tail) = Some r"
    | (anchor) b cs where "u @ a # tail = b # cs" "b = CHR ''}'' \<or> b = CHR '',''" "cap = [b]"
        "bodyAfterSpaces cs = Some r"
    unfolding scopeMatch_iff by blast
  then show ?thesis
  proof cases
    case start
    from bodyAfterSpaces_restrict [OF start(3) a] start(1,2) show ?thesis
      unfolding scopeMatch_iff by blast
  next
    case anchor
    from u anchor(1) obtain u1 where u1: "u = b # u1" "cs = u1 @ a # tail"
      by (cases u) auto
    from bodyAfterSpaces_restrict [OF anchor(4) [unfolded u1(2)] a] u1(1) anchor(2,3)
    show ?thesis unfolding scopeMatch_iff by blast
  qed
qed

lemma scopeMatch_anchor:
  "a = CHR ''}'' \<or> a = CHR '','' \<Longrightarrow> list_all isWhiteSpace ws \<Longrightarrow>
   scopeMatch st (a # ws @ ''body'' @ rest) = Some ([a], rest)"
  unfolding scopeMatch_iff bodyAfterSpaces_iff by blast

lemma scopeMatch_start:
  "list_all isWhiteSpace ws \<Longrightarrow> scopeMatch True (ws @ ''body'' @ rest) = Some ([], rest)"
  unfolding scopeMatch_iff bodyAfterSpaces_iff by blast

lemma scopeMatch_matched:
  "scopeMatch st s = Some (cap, r) \<Longrightarrow> \<exists>m. s = m @ r \<and> m \<noteq> []"
  unfolding scopeMatch_iff bodyAfterSpaces_iff by auto

lemma take_matched: "s = m @ r \<Longrightarrow> take (length s - length r) s = m"
  by simp


lemma replaceBody_step:
  assumes d: "CHR ''$'' \<notin> set wrapperId" and m: "scopeMatch (pre = []) s = Some (cap, r)"
  shows "\<exists>mt. s = mt @ r \<and> mt \<noteq> []
           \<and> replaceBody (''$1 #'' @ wrapperId) pre s
               = cap @ '' #'' @ wrapperId @ replaceBody (''$1 #'' @ wrapperId) (pre @ mt) r"
proof -
  from scopeMatch_matched [OF m] obtain mt where mt: "s = mt @ r" "mt \<noteq> []" by blast
  have "replaceBody (''$1 #'' @ wrapperId) pre s
          = cap @ '' #'' @ wrapperId @ replaceBody (''$1 #'' @ wrapperId) (pre @ mt) r"
    unfolding replaceBody_match [OF m] take_matched [OF mt(1)] getSubstitution_template [OF d]
    by simp
  with mt show ?thesis by blast
qed

lemma replaceBody_anchor:
  assumes d: "CHR ''$'' \<notin> set wrapperId"
    and a: "a = CHR ''}'' \<or> a = CHR '',''" and ws: "list_all isWhiteSpace ws"
  shows "replaceBody (''$1 #'' @ wrapperId) pre (u @ a # ws @ ''body'' @ rest) =
           replaceBody (''$1 #'' @ wrapperId) pre u @ a # '' #'' @ wrapperId
             @ replaceBody (''$1 #'' @ wrapperId) (pre @ u @ a # ws @ ''body'') rest"
proof (induction "length u" arbitrary: u pre rule: less_induct)
  case less
  let ?t = "''$1 #'' @ wrapperId"
  let ?tail = "ws @ ''body'' @ rest"
  show ?case
  proof (cases u)
    case Nil
    from replaceBody_step [OF d scopeMatch_anchor [OF a ws, of "pre = []" rest]]
    obtain mt where mt: "a # ?tail = mt @ rest"
      and r: "replaceBody ?t pre (a # ?tail) = [a] @ '' #'' @ wrapperId @ replaceBody ?t (pre @ mt) rest"
      by blast
    from mt have "(a # ws @ ''body'') @ rest = mt @ rest" by simp
    then have "mt = a # ws @ ''body''" by (simp only: append_same_eq)
    with r Nil show ?thesis by simp
  next
    case (Cons c u')
    show ?thesis
    proof (cases "scopeMatch (pre = []) (u @ a # ?tail)")
      case None
      have nu: "scopeMatch (pre = []) u = None"
      proof (rule ccontr)
        assume "scopeMatch (pre = []) u \<noteq> None"
        then obtain cap u'' where "scopeMatch (pre = []) u = Some (cap, u'')" by auto
        from scopeMatch_extend [OF this, of "a # ?tail"] None show False by simp
      qed
      have 1: "replaceBody ?t pre (u @ a # ?tail) = c # replaceBody ?t (pre @ [c]) (u' @ a # ?tail)"
        using None Cons replaceBody_nomatch [of pre c "u' @ a # ?tail" ?t] by simp
      have 2: "replaceBody ?t (pre @ [c]) (u' @ a # ?tail)
          = replaceBody ?t (pre @ [c]) u' @ a # '' #'' @ wrapperId
              @ replaceBody ?t ((pre @ [c]) @ u' @ a # ws @ ''body'') rest"
        using Cons by (intro less) simp
      have 3: "replaceBody ?t pre u = c # replaceBody ?t (pre @ [c]) u'"
        using nu Cons replaceBody_nomatch [of pre c u' ?t] by simp
      show ?thesis unfolding 1 2 3 using Cons by simp
    next
      case (Some p)
      obtain cap r where p: "p = (cap, r)" by (cases p)
      have ne: "u \<noteq> []" using Cons by simp
      from scopeMatch_restrict [OF Some [unfolded p] a ne] obtain u'' where
        r: "r = u'' @ a # ?tail" and mu: "scopeMatch (pre = []) u = Some (cap, u'')"
        by blast
      from replaceBody_step [OF d mu] obtain mt where
        mt: "u = mt @ u''" "mt \<noteq> []"
        and ru: "replaceBody ?t pre u = cap @ '' #'' @ wrapperId @ replaceBody ?t (pre @ mt) u''"
        by blast
      from replaceBody_step [OF d Some [unfolded p]] obtain mt' where
        mt': "u @ a # ?tail = mt' @ r"
        and rs: "replaceBody ?t pre (u @ a # ?tail)
                   = cap @ '' #'' @ wrapperId @ replaceBody ?t (pre @ mt') r"
        by blast
      from mt' r mt(1) have "mt' @ r = mt @ r" by simp
      then have "mt' = mt" by (simp only: append_same_eq)
      with rs r have 1: "replaceBody ?t pre (u @ a # ?tail)
                   = cap @ '' #'' @ wrapperId @ replaceBody ?t (pre @ mt) (u'' @ a # ?tail)"
        by simp
      have 2: "replaceBody ?t (pre @ mt) (u'' @ a # ?tail)
          = replaceBody ?t (pre @ mt) u'' @ a # '' #'' @ wrapperId
              @ replaceBody ?t ((pre @ mt) @ u'' @ a # ws @ ''body'') rest"
        using mt by (intro less) simp
      show ?thesis unfolding 1 2 ru using mt(1) by simp
    qed
  qed
qed


lemma replaceBody_start:
  assumes d: "CHR ''$'' \<notin> set wrapperId" and ws: "list_all isWhiteSpace ws"
  shows "replaceBody (''$1 #'' @ wrapperId) [] (ws @ ''body'' @ rest) =
           '' #'' @ wrapperId @ replaceBody (''$1 #'' @ wrapperId) (ws @ ''body'') rest"
proof -
  have m: "scopeMatch (([] :: string) = []) (ws @ ''body'' @ rest) = Some ([], rest)"
    using scopeMatch_start [OF ws, of rest] by simp
  from replaceBody_step [OF d m] obtain mt where mt: "ws @ ''body'' @ rest = mt @ rest"
    and r: "replaceBody (''$1 #'' @ wrapperId) [] (ws @ ''body'' @ rest)
              = [] @ '' #'' @ wrapperId @ replaceBody (''$1 #'' @ wrapperId) ([] @ mt) rest"
    by blast
  from mt have "(ws @ ''body'') @ rest = mt @ rest" by simp
  then have "mt = ws @ ''body''" by (simp only: append_same_eq)
  with r show ?thesis by simp
qed

lemma anchoredBody_startI:
  "list_all isWhiteSpace ws \<Longrightarrow> anchoredBody True (ws @ ''body'' @ r)"
  unfolding anchoredBody_def
  by (rule disjI1, rule conjI, rule TrueI, rule exI [where x = ws], rule exI [where x = r]) simp

lemma anchoredBody_anchorI:
  "a = CHR ''}'' \<or> a = CHR '','' \<Longrightarrow> list_all isWhiteSpace ws \<Longrightarrow>
   anchoredBody st (u @ a # ws @ ''body'' @ r)"
  unfolding anchoredBody_def
  by (rule disjI2, rule exI [where x = u], rule exI [where x = a], rule exI [where x = ws],
      rule exI [where x = r]) simp

lemma scopeMatch_anchored:
  "scopeMatch st s = Some (cap, r) \<Longrightarrow> anchoredBody st s"
proof -
  assume "scopeMatch st s = Some (cap, r)"
  then consider
    (start) "st" "bodyAfterSpaces s = Some r"
    | (anchor) b cs where "s = b # cs" "b = CHR ''}'' \<or> b = CHR '',''"
        "bodyAfterSpaces cs = Some r"
    unfolding scopeMatch_iff by blast
  then show ?thesis
  proof cases
    case start
    from start(2) obtain ws where ws: "list_all isWhiteSpace ws" "s = ws @ ''body'' @ r"
      unfolding bodyAfterSpaces_iff by blast
    from anchoredBody_startI [OF ws(1), of r] start(1) ws(2) show ?thesis by simp
  next
    case anchor
    from anchor(3) obtain ws where ws: "list_all isWhiteSpace ws" "cs = ws @ ''body'' @ r"
      unfolding bodyAfterSpaces_iff by blast
    from anchoredBody_anchorI [OF anchor(2) ws(1), of st "[]" r] anchor(1) ws(2)
    show ?thesis by simp
  qed
qed


lemma anchoredBody_False:
  "anchoredBody False s \<longleftrightarrow>
     (\<exists>u a ws r. (a = CHR ''}'' \<or> a = CHR '','') \<and> list_all isWhiteSpace ws
        \<and> s = u @ a # ws @ ''body'' @ r)"
  unfolding anchoredBody_def by simp

lemma anchoredBody_Cons: "anchoredBody False cs \<Longrightarrow> anchoredBody st (c # cs)"
proof -
  assume "anchoredBody False cs"
  then obtain u a ws r where
    a: "a = CHR ''}'' \<or> a = CHR '',''" and ws: "list_all isWhiteSpace ws"
    and cs: "cs = u @ a # ws @ ''body'' @ r"
    unfolding anchoredBody_False by (elim exE conjE)
  from anchoredBody_anchorI [OF a ws, of st "c # u" r] cs show ?thesis by simp
qed

lemma replaceBody_untouched:
  "\<not> anchoredBody (pre = []) s \<Longrightarrow> replaceBody t pre s = s"
proof (induction s arbitrary: pre)
  case Nil
  show ?case by simp
next
  case (Cons c cs)
  have m: "scopeMatch (pre = []) (c # cs) = None"
  proof (rule ccontr)
    assume "scopeMatch (pre = []) (c # cs) \<noteq> None"
    then obtain cap r where "scopeMatch (pre = []) (c # cs) = Some (cap, r)" by auto
    from scopeMatch_anchored [OF this] Cons.prems show False by simp
  qed
  have "\<not> anchoredBody False cs"
    using Cons.prems anchoredBody_Cons [of cs "pre = []" c] by (rule contrapos_nn)
  then have "\<not> anchoredBody (pre @ [c] = []) cs" by simp
  from Cons.IH [OF this] replaceBody_nomatch [OF m, of t] show ?case by simp
qed

lemma hasScopeMatch_anchor:
  "a = CHR ''}'' \<or> a = CHR '','' \<Longrightarrow> list_all isWhiteSpace ws \<Longrightarrow>
   hasScopeMatch st (u @ a # ws @ ''body'' @ r)"
proof (induction u arbitrary: st)
  case Nil
  from scopeMatch_anchor [OF Nil, of st r] show ?case by simp
next
  case (Cons c u)
  from Cons.IH [OF Cons.prems, of False] show ?case by simp
qed

lemma hasScopeMatch_start:
  "list_all isWhiteSpace ws \<Longrightarrow> hasScopeMatch True (ws @ ''body'' @ r)"
proof -
  assume ws: "list_all isWhiteSpace ws"
  obtain c cs where c: "ws @ ''body'' @ r = c # cs" by (cases ws) auto
  from scopeMatch_start [OF ws, of r] show ?thesis unfolding c by simp
qed

lemma anchoredBody_cases:
  "anchoredBody st s \<longleftrightarrow>
     (st \<and> (\<exists>ws r. list_all isWhiteSpace ws \<and> s = ws @ ''body'' @ r))
     \<or> anchoredBody False s"
  unfolding anchoredBody_def by simp

lemma anchoredBody_hasScopeMatch: "anchoredBody st s \<Longrightarrow> hasScopeMatch st s"
proof -
  assume "anchoredBody st s"
  then have "(st \<and> (\<exists>ws r. list_all isWhiteSpace ws \<and> s = ws @ ''body'' @ r))
     \<or> anchoredBody False s"
    by (subst (asm) anchoredBody_cases)
  then show ?thesis
  proof
    assume "st \<and> (\<exists>ws r. list_all isWhiteSpace ws \<and> s = ws @ ''body'' @ r)"
    then obtain ws r where st: "st" and ws: "list_all isWhiteSpace ws"
      and s: "s = ws @ ''body'' @ r"
      by (elim exE conjE)
    from hasScopeMatch_start [OF ws, of r] st s show ?thesis by simp
  next
    assume "anchoredBody False s"
    then obtain u a ws r where
      a: "a = CHR ''}'' \<or> a = CHR '',''" and ws: "list_all isWhiteSpace ws"
      and s: "s = u @ a # ws @ ''body'' @ r"
      unfolding anchoredBody_False by (elim exE conjE)
    from hasScopeMatch_anchor [OF a ws, of st u r] s show ?thesis by simp
  qed
qed

text \<open>
  C2, as stated, fails: the replacement text starts with a space, so the example gives
  \<open> #p1{color:red} .x{}\<close>, and white space between the anchor and \<open>body\<close> is allowed and
  replaced with it. What holds, for a wrapper id without \<open>$\<close> (as every wrapper id made
  from an artifact id is, \<open>preview_wrapper_id_plain\<close>): \<open>parseHtmlForPreview\<close>
  returns the rewritten concatenation of the style texts; an occurrence of \<open>body\<close> behind
  the start of the text, a closing brace or a comma, with only white space in between, is
  replaced together with that white space by a space, \<open>#\<close> and the wrapper id, the brace or
  comma being kept, and the rewrite goes on behind it; a text without such an occurrence
  is left as it is, so that \<open>body\<close> anywhere else is untouched.
\<close>

theorem C2_scope_styles_amended:
  "CHR ''$'' \<notin> set wrapperId \<Longrightarrow>
   (\<forall>env html doc.
      parseFromString env html = Inr doc \<longrightarrow>
      parseHtmlForPreview env html wrapperId =
        Inr \<lparr> styles =
                scopeStyles
                  (join [CHR 0x0A]
                     (map (innerHTML env)
                        (querySelectorAllStyle [ElementNode (head doc), ElementNode (body doc)])))
                  wrapperId,
              bodyContent = innerHTML env (body doc) \<rparr>)
   \<and> (\<forall>ws rest. list_all isWhiteSpace ws \<longrightarrow>
      scopeStyles (ws @ ''body'' @ rest) wrapperId =
        '' #'' @ wrapperId @ replaceBody (''$1 #'' @ wrapperId) (ws @ ''body'') rest)
   \<and> (\<forall>u a ws rest. (a = CHR ''}'' \<or> a = CHR '','') \<longrightarrow> list_all isWhiteSpace ws \<longrightarrow>
      scopeStyles (u @ a # ws @ ''body'' @ rest) wrapperId =
        scopeStyles u wrapperId @ a # '' #'' @ wrapperId
          @ replaceBody (''$1 #'' @ wrapperId) (u @ a # ws @ ''body'') rest)
   \<and> (\<forall>s. \<not> anchoredBody True s \<longrightarrow> scopeStyles s wrapperId = s)
   \<and> (\<forall>pre u a ws rest.
        (a = CHR ''}'' \<or> a = CHR '','') \<longrightarrow> list_all isWhiteSpace ws \<longrightarrow>
        replaceBody (''$1 #'' @ wrapperId) pre (u @ a # ws @ ''body'' @ rest) =
          replaceBody (''$1 #'' @ wrapperId) pre u @ a # '' #'' @ wrapperId
            @ replaceBody (''$1 #'' @ wrapperId) (pre @ u @ a # ws @ ''body'') rest)
   \<and> (\<forall>pre s. \<not> anchoredBody (pre = []) s \<longrightarrow>
         replaceBody (''$1 #'' @ wrapperId) pre s = s)"
proof (intro conjI allI impI)
  fix env :: dom and html doc
  assume "parseFromString env html = Inr doc"
  then show "parseHtmlForPreview env html wrapperId =
        Inr \<lparr> styles =
                scopeStyles
                  (join [CHR 0x0A]
                     (map (innerHTML env)
                        (querySelectorAllStyle [ElementNode (head doc), ElementNode (body doc)])))
                  wrapperId,
              bodyContent = innerHTML env (body doc) \<rparr>"
    by (simp add: parseHtmlForPreview_def Let_def)
next
  fix ws rest
  assume "CHR ''$'' \<notin> set wrapperId" "list_all isWhiteSpace ws"
  then show "scopeStyles (ws @ ''body'' @ rest) wrapperId =
        '' #'' @ wrapperId @ replaceBody (''$1 #'' @ wrapperId) (ws @ ''body'') rest"
    unfolding scopeStyles_def by (rule replaceBody_start)
next
  fix u a ws rest
  assume "CHR ''$'' \<notin> set wrapperId" "a = CHR ''}'' \<or> a = CHR '',''"
    "list_all isWhiteSpace ws"
  from replaceBody_anchor [OF this, of "[]" u rest]
  show "scopeStyles (u @ a # ws @ ''body'' @ rest) wrapperId =
        scopeStyles u wrapperId @ a # '' #'' @ wrapperId
          @ replaceBody (''$1 #'' @ wrapperId) (u @ a # ws @ ''body'') rest"
    unfolding scopeStyles_def by simp
next
  fix s
  assume "\<not> anchoredBody True s"
  then have "\<not> anchoredBody (([] :: string) = []) s" by simp
  then show "scopeStyles s wrapperId = s"
    unfolding scopeStyles_def by (rule replaceBody_untouched)
next
  fix pre u ws rest :: string and a :: char
  assume "CHR ''$'' \<notin> set wrapperId" "a = CHR ''}'' \<or> a = CHR '',''"
    "list_all isWhiteSpace ws"
  then show "replaceBody (''$1 #'' @ wrapperId) pre (u @ a # ws @ ''body'' @ rest) =
          replaceBody (''$1 #'' @ wrapperId) pre u @ a # '' #'' @ wrapperId
            @ replaceBody (''$1 #'' @ wrapperId) (pre @ u @ a # ws @ ''body'') rest"
    by (rule replaceBody_anchor)
next
  fix pre s :: string
  assume "\<not> anchoredBody (pre = []) s"
  then show "replaceBody (''$1 #'' @ wrapperId) pre s = s"
    by (rule replaceBody_untouched)
qed

theorem C2_scope_styles_counterexample:
  "scopeStyles ''body{color:red} .x{}'' ''p1'' = '' #p1{color:red} .x{}''
   \<and> scopeStyles ''body{color:red} .x{}'' ''p1'' \<noteq> ''#p1{color:red} .x{}''
   \<and> scopeStyles ''a{}  body{}'' ''p1'' = ''a{} #p1{}''"
  by code_simp

theorem C2_scope_styles_amended_witness:
  \<open>CHR ''$'' \<notin> set ''p1''
   \<and> parseHtmlForPreview (exampleHost exampleDocuments) previewBlock ''p1''
       = Inr \<lparr> styles = '' #p1{color:red} .x{}'', bodyContent = ''<p class="x">hi</p>'' \<rparr>
   \<and> scopeStyles ''body{color:red} .x{}'' ''p1'' = '' #p1{color:red} .x{}''
   \<and> scopeStyles ''.x{a:b} body p,body>a{}'' ''p1'' = ''.x{a:b} #p1 p, #p1>a{}''
   \<and> \<not> anchoredBody True ''.bodyish{} html body{}''
   \<and> scopeStyles ''.bodyish{} html body{}'' ''p1'' = ''.bodyish{} html body{}''
   \<and> replaceBody (''$1 #'' @ ''p1'') ''a'' ''b,  body{}'' = ''b, #p1{}''
   \<and> \<not> anchoredBody False ''body{}''
   \<and> replaceBody (''$1 #'' @ ''p1'') ''a'' ''body{}'' = ''body{}''\<close>
proof -
  let ?H = "exampleHost exampleDocuments"
  have d: "CHR ''$'' \<notin> set ''p1''" by simp
  note t = C2_scope_styles_amended [OF d, THEN conjunct2]
  have p1: "parseFromString ?H previewBlock = Inr previewDocument" by code_simp
  have p2: "map (innerHTML ?H)
              (querySelectorAllStyle
                 [ElementNode (head previewDocument), ElementNode (body previewDocument)])
              = [''body{color:red} .x{}'']"
    by code_simp
  have p3: \<open>innerHTML ?H (body previewDocument) = ''<p class="x">hi</p>''\<close> by code_simp
  have p4: "join [CHR 0x0A] [''body{color:red} .x{}''] = ''body{color:red} .x{}''" by simp
  note t0 = C2_scope_styles_amended [OF d, THEN conjunct1, rule_format, OF p1]
  have w0: "list_all isWhiteSpace []" and w1: "list_all isWhiteSpace '' ''"
    by (simp_all add: isWhiteSpace_def)
  have k1: "replaceBody (''$1 #'' @ ''p1'') ([] @ ''body'') ''{color:red} .x{}''
              = ''{color:red} .x{}''"
    by code_simp
  have k2: "replaceBody (''$1 #'' @ ''p1'') (''.x{a:b'' @ CHR ''}'' # '' '' @ ''body'')
              '' p,body>a{}'' = '' p, #p1>a{}''"
    by code_simp
  have k3: "scopeStyles ''.x{a:b'' ''p1'' = ''.x{a:b''" by code_simp
  have n: "\<not> hasScopeMatch True ''.bodyish{} html body{}''" by code_simp
  have a: "\<not> anchoredBody True ''.bodyish{} html body{}''"
    using n anchoredBody_hasScopeMatch by blast
  have c: "CHR ''}'' = CHR ''}'' \<or> CHR ''}'' = CHR '',''" by simp
  note t1 = t [THEN conjunct1, rule_format, OF w0, of "''{color:red} .x{}''"]
  note t2 = t [THEN conjunct2, THEN conjunct1, rule_format, OF c w1,
                of "''.x{a:b''" "'' p,body>a{}''"]
  note t3 = t [THEN conjunct2, THEN conjunct2, THEN conjunct1, rule_format, OF a]
  have r1: "scopeStyles ([] @ ''body'' @ ''{color:red} .x{}'') ''p1''
              = '' #'' @ ''p1'' @ ''{color:red} .x{}''"
    unfolding t1 k1 ..
  have r2: "scopeStyles (''.x{a:b'' @ CHR ''}'' # '' '' @ ''body'' @ '' p,body>a{}'') ''p1''
          = ''.x{a:b'' @ CHR ''}'' # '' #'' @ ''p1'' @ '' p, #p1>a{}''"
    unfolding t2 k2 k3 ..
  have r3: "scopeStyles ''.bodyish{} html body{}'' ''p1'' = ''.bodyish{} html body{}''"
    by (rule t3)
  have w2: "list_all isWhiteSpace ''  ''" by (simp add: isWhiteSpace_def)
  have c': "CHR '','' = CHR ''}'' \<or> CHR '','' = CHR '',''" by simp
  have k4: "replaceBody (''$1 #'' @ ''p1'') ''a'' ''b'' = ''b''" by code_simp
  have k5: "replaceBody (''$1 #'' @ ''p1'') (''a'' @ ''b'' @ CHR '','' # ''  '' @ ''body'') ''{}''
              = ''{}''"
    by code_simp
  note t4 = t [THEN conjunct2, THEN conjunct2, THEN conjunct2, THEN conjunct1, rule_format,
                OF c' w2, of "''a''" "''b''" "''{}''"]
  have r4: "replaceBody (''$1 #'' @ ''p1'') ''a'' (''b'' @ CHR '','' # ''  '' @ ''body'' @ ''{}'')
              = ''b'' @ CHR '','' # '' #'' @ ''p1'' @ ''{}''"
    unfolding t4 k4 k5 ..
  have n': "\<not> hasScopeMatch False ''body{}''" by code_simp
  have a': "\<not> anchoredBody False ''body{}''"
    using n' anchoredBody_hasScopeMatch by blast
  have a'': "\<not> anchoredBody (''a'' = []) ''body{}''" using a' by simp
  note t5 = t [THEN conjunct2, THEN conjunct2, THEN conjunct2, THEN conjunct2, rule_format,
                OF a'']
  have r0: \<open>parseHtmlForPreview ?H previewBlock ''p1''
       = Inr \<lparr> styles = '' #p1{color:red} .x{}'', bodyContent = ''<p class="x">hi</p>'' \<rparr>\<close>
    unfolding t0 p2 p3 p4 using r1 by simp
  from d r0 r1 r2 a r3 r4 a' t5 show ?thesis by simp
qed

end
